theory Spec2Isabelle
  imports Complex_Main "HOL-Library.Word"
begin

section \<open>The pseudorandom source\<close>

text \<open>
  \<^verbatim>\<open>random_walk.py\<close> draws from numpy's process-wide generator. The generator is made
  explicit: its state is the (unknown) sequence of uniform draws it will deliver, together
  with the number of draws already taken. Every function that draws takes the state and
  returns the advanced one. Floating-point draws and the bias \<open>p\<close> are modelled by the
  real numbers they denote; the only operation the walks apply to them is \<open><\<close>, which is
  exact on floats.
\<close>

datatype rng = Rng (tape: "nat \<Rightarrow> real") (drawn: nat)

text \<open>\<^verbatim>\<open>np.random.rand()\<close>: one draw, and the state after it.\<close>

definition rand_scalar :: "rng \<Rightarrow> real \<times> rng" where
  "rand_scalar g = (tape g (drawn g), Rng (tape g) (Suc (drawn g)))"

text \<open>What numpy promises of a draw: a uniform value in the half-open interval \<open>[0, 1)\<close>.\<close>

definition unit_interval_draws :: "rng \<Rightarrow> bool" where
  "unit_interval_draws g \<longleftrightarrow> (\<forall>n. 0 \<le> tape g n \<and> tape g n < 1)"

datatype py_error = ValueError

section \<open>Double-precision rounding\<close>

text \<open>
  numpy stores floats as IEEE 754 doubles: 53 significant bits, every operation rounded to
  the nearest double, a tie to the one with the even significand. The numbers that occur
  here (integers below \<open>2^64\<close>, their sums, quotients by a number of trials) are far
  from the ends of the exponent range, so overflow and subnormal numbers are left out. A
  double is modelled by the real number it denotes.
\<close>

text \<open>The number of binary digits of a natural number.\<close>

fun bit_length :: "nat \<Rightarrow> nat" where
  "bit_length n = (if n = 0 then 0 else Suc (bit_length (n div 2)))"

declare bit_length.simps [simp del]

text \<open>The binary exponent of a positive real \<open>x\<close>: the \<open>e\<close> with \<open>2^e \<le> x < 2^(e+1)\<close>.\<close>

definition float64_exponent :: "real \<Rightarrow> int" where
  "float64_exponent x =
     (if 1 \<le> x then int (bit_length (nat \<lfloor>x\<rfloor>)) - 1
      else - int (bit_length (nat (\<lceil>1 / x\<rceil> - 1))))"

definition scale2 :: "real \<Rightarrow> int \<Rightarrow> real" where
  "scale2 x k = (if 0 \<le> k then x * 2 ^ nat k else x / 2 ^ nat (- k))"

definition round_half_even :: "real \<Rightarrow> int" where
  "round_half_even y =
     (let q = \<lfloor>y\<rfloor>; f = y - of_int q
      in if f < 1 / 2 then q else if 1 / 2 < f then q + 1 else if even q then q else q + 1)"

text \<open>The double nearest to a real: scale to a 53-bit significand, round it, scale back.\<close>

definition float64_round :: "real \<Rightarrow> real" where
  "float64_round x =
     (if x = 0 then 0
      else let e = float64_exponent \<bar>x\<bar>;
               m = round_half_even (scale2 \<bar>x\<bar> (52 - e))
           in sgn x * scale2 (of_int m) (e - 52))"

text \<open>
  The conversion of an integer to a double. The double nearest to an integer is an integer
  again, so the result is kept as one.
\<close>

definition float64_of_int :: "int \<Rightarrow> int" where
  "float64_of_int n = \<lfloor>float64_round (of_int n)\<rfloor>"

text \<open>The sum of two doubles, as \<open>+\<close> on Python floats computes it.\<close>

definition float64_add :: "real \<Rightarrow> real \<Rightarrow> real" where
  "float64_add x y = float64_round (x + y)"

section \<open>Arrays made from Python integers\<close>

text \<open>
  \<^verbatim>\<open>np.array(xs)\<close> on a list of Python integers chooses the element type from the
  values: an integer in the range of \<open>int64\<close> is taken as \<open>int64\<close>, one from \<open>2^63\<close> up to
  \<open>2^64 - 1\<close> as \<open>uint64\<close>, any other as a Python object. Integers of one kind, and any
  list holding an object, are stored exactly. A list that mixes \<open>int64\<close> and \<open>uint64\<close>
  values has no common integer type: numpy stores it as \<open>float64\<close>, each element converted
  to the nearest double. An array is modelled by the list of the numbers its elements
  denote.
\<close>

definition fits_int64 :: "int \<Rightarrow> bool" where
  "fits_int64 x \<longleftrightarrow> - (2 ^ 63) \<le> x \<and> x < 2 ^ 63"

definition fits_uint64 :: "int \<Rightarrow> bool" where
  "fits_uint64 x \<longleftrightarrow> 2 ^ 63 \<le> x \<and> x < 2 ^ 64"

definition promoted_to_float64 :: "int list \<Rightarrow> bool" where
  "promoted_to_float64 xs \<longleftrightarrow>
     list_all (\<lambda>x. fits_int64 x \<or> fits_uint64 x) xs
     \<and> list_ex fits_int64 xs \<and> list_ex fits_uint64 xs"

definition np_array :: "int list \<Rightarrow> int list" where
  "np_array xs = (if promoted_to_float64 xs then map float64_of_int xs else xs)"

text \<open>
  \<^verbatim>\<open>np.array(xs) == v\<close> for a Python integer \<open>v\<close>: elementwise equality. On an array
  stored as \<open>float64\<close> the integer is converted to a double as well and doubles are
  compared; on an array of integers or objects the comparison is exact, as numpy 2 compares
  an integer array with a Python integer of any size.
\<close>

definition np_array_eq :: "int list \<Rightarrow> int \<Rightarrow> bool list" where
  "np_array_eq xs v =
     (if promoted_to_float64 xs then map (\<lambda>x. float64_of_int x = float64_of_int v) xs
      else map (\<lambda>x. x = v) xs)"

section \<open>The absorbing walk\<close>

text \<open>
  \<^verbatim>\<open>
  pos = start
  path = [pos]
  for t in range(1, max_steps +1):
      step = 1 if np.random.rand() < p else -1
      pos += step
      path.append(pos)
      if pos <= left or pos>= right:
          return np.array(path), t, pos
  return np.array(path), max_steps, pos
  \<close>
  The loop is a recursive function on the loop variable \<open>t\<close>, the position, the path so
  far and the generator. Positions, and the returned hit time and hit location, are
  Python integers, hence \<open>int\<close>; the returned path is the array made from the list.
\<close>

function absorbing_loop ::
  "int \<Rightarrow> int \<Rightarrow> real \<Rightarrow> int \<Rightarrow> int \<Rightarrow> int \<Rightarrow> int list \<Rightarrow> rng \<Rightarrow> (int list \<times> int \<times> int) \<times> rng"
where
  "absorbing_loop left right p max_steps t pos path g =
     (if t \<le> max_steps then
        (let step = (if fst (rand_scalar g) < p then 1 else - 1);
             pos' = pos + step;
             path' = path @ [pos']
         in if pos' \<le> left \<or> pos' \<ge> right
            then ((np_array path', t, pos'), snd (rand_scalar g))
            else absorbing_loop left right p max_steps (t + 1) pos' path' (snd (rand_scalar g)))
      else ((np_array path, max_steps, pos), g))"
  by pat_completeness auto
termination
  by (relation "measure (\<lambda>(left, right, p, max_steps, t, pos, path, g). nat (max_steps + 1 - t))")
     auto

declare absorbing_loop.simps [simp del]

definition random_walk_absorbing ::
  "int \<Rightarrow> int \<Rightarrow> int \<Rightarrow> real \<Rightarrow> int \<Rightarrow> rng \<Rightarrow> (int list \<times> int \<times> int) \<times> rng"
where
  "random_walk_absorbing left right start p max_steps g =
     absorbing_loop left right p max_steps 1 start [start] g"

text \<open>The three components of the returned triple.\<close>

definition path_of :: "(int list \<times> int \<times> int) \<times> rng \<Rightarrow> int list" where
  "path_of r = fst (fst r)"

definition hit_time_of :: "(int list \<times> int \<times> int) \<times> rng \<Rightarrow> int" where
  "hit_time_of r = fst (snd (fst r))"

definition hit_location_of :: "(int list \<times> int \<times> int) \<times> rng \<Rightarrow> int" where
  "hit_location_of r = snd (snd (fst r))"

text \<open>The absorption test of the loop body.\<close>

definition absorbed :: "int \<Rightarrow> int \<Rightarrow> int \<Rightarrow> bool" where
  "absorbed left right pos \<longleftrightarrow> pos \<le> left \<or> pos \<ge> right"

section \<open>The hitting-time estimator\<close>

text \<open>
  \<^verbatim>\<open>
  times = []
  hits = []
  for path in range(n_trials):
      path, t, loc = random_walk_absorbing(left, right, start)
      times.append(t)
      hits.append(loc)
  \<close>
  Each trial runs with the defaults \<open>p = .5\<close> and \<open>max_steps = 10000\<close>, on the generator as
  the trial before left it. \<open>range(n_trials)\<close> has \<open>nat n_trials\<close> elements.
\<close>

fun hitting_loop ::
  "int \<Rightarrow> int \<Rightarrow> int \<Rightarrow> nat \<Rightarrow> int list \<Rightarrow> int list \<Rightarrow> rng \<Rightarrow> (int list \<times> int list) \<times> rng"
where
  "hitting_loop left right start 0 times' hits g = ((times', hits), g)"
| "hitting_loop left right start (Suc k) times' hits g =
     (let r = random_walk_absorbing left right start (1 / 2) 10000 g
      in hitting_loop left right start k
           (times' @ [hit_time_of r]) (hits @ [hit_location_of r]) (snd r))"

text \<open>
  \<^verbatim>\<open>np.mean\<close> of a boolean array: the number of true entries, summed exactly in
  double precision, divided by the length in double precision. On an empty array numpy
  returns NaN, which is \<open>None\<close> here.
\<close>

definition np_mean_bool :: "bool list \<Rightarrow> real option" where
  "np_mean_bool bs =
     (if bs = [] then None
      else Some (float64_round (real (length (filter (\<lambda>b. b) bs)) / real (length bs))))"

text \<open>
  \<^verbatim>\<open>
  times = np.array(times)
  hits = np.array(hits)
  prob_left = np.mean(hits == left)
  prob_right = np.mean(hits == right)
  return times, (prob_left, prob_right)
  \<close>
\<close>

definition hitting_time ::
  "int \<Rightarrow> int \<Rightarrow> int \<Rightarrow> int \<Rightarrow> rng \<Rightarrow> (int list \<times> (real option \<times> real option)) \<times> rng"
where
  "hitting_time left right n_trials start g =
     (let r = hitting_loop left right start (nat n_trials) [] [] g;
          times' = np_array (fst (fst r));
          hits = snd (fst r);
          prob_left = np_mean_bool (np_array_eq hits left);
          prob_right = np_mean_bool (np_array_eq hits right)
      in ((times', (prob_left, prob_right)), snd r))"

text \<open>
  To speak of "the i-th trial": the generator on which trial \<open>i\<close> (counted from 0) starts,
  and the outcome of that trial.
\<close>

primrec trial_rng :: "int \<Rightarrow> int \<Rightarrow> int \<Rightarrow> rng \<Rightarrow> nat \<Rightarrow> rng" where
  "trial_rng left right start g 0 = g"
| "trial_rng left right start g (Suc i) =
     snd (random_walk_absorbing left right start (1 / 2) 10000 (trial_rng left right start g i))"

definition trial ::
  "int \<Rightarrow> int \<Rightarrow> int \<Rightarrow> rng \<Rightarrow> nat \<Rightarrow> (int list \<times> int \<times> int) \<times> rng"
where
  "trial left right start g i =
     random_walk_absorbing left right start (1 / 2) 10000 (trial_rng left right start g i)"

text \<open>The hit locations of the first \<open>n\<close> trials, as the list \<open>hits\<close> collects them.\<close>

definition trial_hits :: "int \<Rightarrow> int \<Rightarrow> int \<Rightarrow> rng \<Rightarrow> nat \<Rightarrow> int list" where
  "trial_hits left right start g n =
     map (\<lambda>i. hit_location_of (trial left right start g i)) [0..<n]"

section \<open>The plain one-dimensional walk\<close>

text \<open>
  \<^verbatim>\<open>np.random.rand(n)\<close> delivers \<open>n\<close> draws as an array; numpy refuses a negative
  dimension with \<open>ValueError\<close>.
\<close>

primrec rand_draws :: "nat \<Rightarrow> rng \<Rightarrow> real list \<times> rng" where
  "rand_draws 0 g = ([], g)"
| "rand_draws (Suc k) g =
     (fst (rand_scalar g) # fst (rand_draws k (snd (rand_scalar g))),
      snd (rand_draws k (snd (rand_scalar g))))"

definition np_random_rand :: "int \<Rightarrow> rng \<Rightarrow> py_error + real list \<times> rng" where
  "np_random_rand n g = (if n < 0 then Inl ValueError else Inr (rand_draws (nat n) g))"

text \<open>\<^verbatim>\<open>np.cumsum\<close>: the running sums of an array.\<close>

fun cumsum_from :: "int \<Rightarrow> int list \<Rightarrow> int list" where
  "cumsum_from acc [] = []"
| "cumsum_from acc (x # xs) = (acc + x) # cumsum_from (acc + x) xs"

definition np_cumsum :: "int list \<Rightarrow> int list" where
  "np_cumsum xs = cumsum_from 0 xs"

text \<open>
  \<^verbatim>\<open>
  steps = np.where(np.random.rand(n_steps) < p, 1, -1)
  return np.cumsum(steps)
  \<close>
  The positions of a walk of \<open>n\<close> steps lie between \<open>-n\<close> and \<open>n\<close>, far inside the range
  of numpy's 64-bit integers for every array that fits in memory, so they are \<open>int\<close>.
\<close>

definition random_walk_1d :: "int \<Rightarrow> real \<Rightarrow> rng \<Rightarrow> py_error + int list \<times> rng" where
  "random_walk_1d n_steps p g =
     (case np_random_rand n_steps g of
        Inl e \<Rightarrow> Inl e
      | Inr (us, g') \<Rightarrow>
          (let steps = map (\<lambda>u. if u < p then 1 else - 1) us
           in Inr (np_cumsum steps, g')))"

section \<open>Mean squared displacement\<close>

text \<open>
  \<^verbatim>\<open>return np.mean(walks**2, axis = 0)\<close>

  A batch is the list of its rows (one row per trial), all of the same length. Its entries
  are numpy's 64-bit integers, as the walk generators produce them, so the square wraps
  around. \<^verbatim>\<open>np.mean\<close> along axis 0 works in double precision: in each column it converts
  the entries to doubles, adds them up row after row and divides the sum by the number of
  rows, rounding at every step. (On a batch of a single column with eight rows or more
  numpy groups the additions differently; the grouping makes no difference where the
  partial sums are exact.) Over zero rows numpy returns NaN, which is \<open>None\<close> here.
\<close>

definition np_square :: "64 word list list \<Rightarrow> 64 word list list" where
  "np_square walks = map (map (\<lambda>x. x * x)) walks"

text \<open>
  The running sum of integers in double precision. Sums of integer-valued doubles are
  integer-valued, so the accumulator is kept as an integer.
\<close>

definition float64_sum :: "int list \<Rightarrow> int" where
  "float64_sum xs = foldl (\<lambda>acc x. float64_of_int (acc + float64_of_int x)) 0 xs"

definition np_mean_axis0 :: "64 word list list \<Rightarrow> real list option" where
  "np_mean_axis0 rows =
     (if rows = [] then None
      else Some (map (\<lambda>t. float64_round
                             (real_of_int (float64_sum (map (\<lambda>row. sint (row ! t)) rows))
                                / real (length rows)))
                     [0..<length (hd rows)]))"

definition mean_squared_displacement :: "64 word list list \<Rightarrow> real list option" where
  "mean_squared_displacement walks = np_mean_axis0 (np_square walks)"

section \<open>Auxiliary definitions\<close>

text \<open>
  A generator for deterministic runs: it delivers the given draws over and over.
\<close>

definition cycle_rng :: "real list \<Rightarrow> rng" where
  "cycle_rng us = Rng (\<lambda>n. us ! (n mod length us)) 0"

text \<open>The step of one tick: \<^verbatim>\<open>1 if np.random.rand() < p else -1\<close>.\<close>

definition step_of :: "real \<Rightarrow> rng \<Rightarrow> int" where
  "step_of p g = (if fst (rand_scalar g) < p then 1 else - 1)"

text \<open>
  What a run of the loop from tick \<open>t\<close>, position \<open>pos\<close>, path \<open>path\<close> and generator \<open>g\<close>
  has achieved when it returns \<open>R\<close>, in terms of the positions \<open>ext\<close> it has appended.
\<close>

definition loop_post ::
  "int \<Rightarrow> int \<Rightarrow> int \<Rightarrow> int \<Rightarrow> int \<Rightarrow> int list \<Rightarrow> rng \<Rightarrow> (int list \<times> int \<times> int) \<times> rng \<Rightarrow> int list \<Rightarrow> bool"
where
  "loop_post l r m t pos path g R ext \<longleftrightarrow>
     path_of R = np_array (path @ ext)
   \<and> hit_location_of R = last (pos # ext)
   \<and> drawn (snd R) = drawn g + length ext
   \<and> tape (snd R) = tape g
   \<and> hit_time_of R \<le> m
   \<and> (t \<le> m + 1 \<longrightarrow> hit_time_of R = t - 1 + int (length ext))
   \<and> (\<forall>i. Suc i < length ext \<longrightarrow> \<not> absorbed l r (ext ! i))
   \<and> (ext \<noteq> [] \<and> absorbed l r (last ext) \<or> hit_time_of R = m \<and> (\<forall>x\<in>set ext. \<not> absorbed l r x))
   \<and> (\<forall>i<length ext. \<bar>(pos # ext) ! Suc i - (pos # ext) ! i\<bar> = 1)"

section \<open>Double-precision rounding: exactness and error\<close>

lemma bit_length_bounds:
  "0 < n \<Longrightarrow> 2 ^ (bit_length n - 1) \<le> n \<and> n < 2 ^ bit_length n"
proof (induction n rule: bit_length.induct)
  case (1 n)
  show ?case
  proof (cases "n div 2 = 0")
    case True
    then have "n = 1" using "1.prems" by linarith
    then show ?thesis
      by (simp add: bit_length.simps [of "Suc 0"] bit_length.simps [of 0])
  next
    case False
    then have pos: "0 < n div 2" by simp
    have n0: "n \<noteq> 0" using "1.prems" by simp
    from "1.IH" [OF n0 pos]
    have ih: "2 ^ (bit_length (n div 2) - 1) \<le> n div 2" "n div 2 < 2 ^ bit_length (n div 2)"
      by simp_all
    have bl: "bit_length n = Suc (bit_length (n div 2))"
      using n0 by (simp add: bit_length.simps [of n])
    have blpos: "0 < bit_length (n div 2)"
      using pos by (simp add: bit_length.simps [of "n div 2"])
    then obtain k where k: "bit_length (n div 2) = Suc k"
      by (cases "bit_length (n div 2)") simp_all
    have "2 * 2 ^ k \<le> 2 * (n div 2)" using ih(1) k by simp
    also have "\<dots> \<le> n" by simp
    finally have low: "2 ^ (bit_length n - 1) \<le> n" using bl k by simp
    have "n < 2 * (n div 2) + 2" by linarith
    also have "\<dots> \<le> 2 * 2 ^ bit_length (n div 2)" using ih(2) by simp
    finally have "n < 2 ^ bit_length n" using bl by simp
    with low show ?thesis by blast
  qed
qed

lemma bit_length_pos: "0 < n \<Longrightarrow> 0 < bit_length n"
  by (simp add: bit_length.simps [of n])

text \<open>The exponent function does find the binade of its argument.\<close>

lemma float64_exponent_bounds:
  assumes "0 < x"
  shows "2 powi float64_exponent x \<le> x \<and> x < 2 powi (float64_exponent x + 1)"
proof (cases "1 \<le> x")
  case True
  define m where "m = nat \<lfloor>x\<rfloor>"
  have m: "0 < m" using True by (simp add: m_def)
  have mx: "real m \<le> x" "x < real m + 1"
    using True unfolding m_def by linarith+
  from bit_length_bounds [OF m] obtain
    b: "2 ^ (bit_length m - 1) \<le> m" "m < 2 ^ bit_length m" by blast
  have e: "float64_exponent x = int (bit_length m) - 1"
    using True by (simp add: float64_exponent_def m_def)
  obtain k where k: "bit_length m = Suc k"
    using bit_length_pos [OF m] by (cases "bit_length m") simp_all
  have "(2::real) ^ k \<le> real m"
    using b(1) k by (metis diff_Suc_1 of_nat_le_iff of_nat_numeral of_nat_power)
  then have "(2::real) ^ k \<le> x"
    using mx(1) by linarith
  moreover have "float64_exponent x = int k"
    using e k by simp
  ultimately have low: "2 powi float64_exponent x \<le> x"
    by simp
  have "m + 1 \<le> 2 ^ Suc k" using b(2) k by simp
  then have "real (m + 1) \<le> 2 ^ Suc k"
    by (metis of_nat_le_iff of_nat_numeral of_nat_power)
  then have "x < (2::real) ^ Suc k" using mx(2) by simp
  moreover have "float64_exponent x + 1 = int (Suc k)"
    using e k by simp
  ultimately have "x < 2 powi (float64_exponent x + 1)"
    by (simp only: power_int_of_nat)
  with low show ?thesis by blast
next
  case False
  then have x1: "x < 1" by simp
  define y where "y = 1 / x"
  have y1: "1 < y" using assms x1 by (simp add: y_def)
  define m where "m = nat (\<lceil>y\<rceil> - 1)"
  have c: "2 \<le> \<lceil>y\<rceil>" using y1 by linarith
  then have m: "0 < m" by (simp add: m_def)
  have my: "real m < y" "y \<le> real m + 1"
    using c unfolding m_def by linarith+
  from bit_length_bounds [OF m] obtain
    b: "2 ^ (bit_length m - 1) \<le> m" "m < 2 ^ bit_length m" by blast
  have e: "float64_exponent x = - int (bit_length m)"
    using False by (simp add: float64_exponent_def m_def y_def)
  obtain k where k: "bit_length m = Suc k"
    using bit_length_pos [OF m] by (cases "bit_length m") simp_all
  have "m + 1 \<le> 2 ^ Suc k" using b(2) k by simp
  then have "real (m + 1) \<le> 2 ^ Suc k"
    by (metis of_nat_le_iff of_nat_numeral of_nat_power)
  then have "y \<le> (2::real) ^ Suc k" using my(2) by simp
  then have "1 / (2::real) ^ Suc k \<le> x"
    using assms by (simp add: y_def field_simps)
  moreover have "float64_exponent x = - int (Suc k)"
    using e k by simp
  ultimately have low: "2 powi float64_exponent x \<le> x"
    by (simp only: power_int_minus power_int_of_nat inverse_eq_divide)
  have "(2::real) ^ k \<le> real m"
    using b(1) k by (metis diff_Suc_1 of_nat_le_iff of_nat_numeral of_nat_power)
  then have "(2::real) ^ k < y" using my(1) by linarith
  then have "x < 1 / (2::real) ^ k"
    using assms by (simp add: y_def field_simps)
  moreover have "float64_exponent x + 1 = - int k"
    using e k by simp
  ultimately have "x < 2 powi (float64_exponent x + 1)"
    by (simp only: power_int_minus power_int_of_nat inverse_eq_divide)
  with low show ?thesis by blast
qed

lemma scale2_powi: "scale2 x k = x * 2 powi k"
  by (simp add: scale2_def power_int_def field_simps)

lemma powi2_less_imp: "(2::real) powi a < 2 powi b \<Longrightarrow> a < b"
proof (rule ccontr)
  assume l: "(2::real) powi a < 2 powi b" and "\<not> a < b"
  then have "b \<le> a" by simp
  then have "(2::real) powi b \<le> 2 powi a"
    by (rule power_int_increasing) simp
  with l show False by simp
qed

lemma round_half_even_of_int: "round_half_even (of_int n) = n"
  by (simp add: round_half_even_def)

lemma round_half_even_bounds:
  "\<lfloor>y\<rfloor> \<le> round_half_even y \<and> round_half_even y \<le> \<lfloor>y\<rfloor> + 1
   \<and> real_of_int (round_half_even y) \<le> y + 1 / 2"
proof -
  have "real_of_int \<lfloor>y\<rfloor> \<le> y + 1 / 2"
    using of_int_floor_le [of y] by linarith
  then show ?thesis
    by (auto simp: round_half_even_def Let_def)
qed

lemma float64_round_pos:
  "0 < x \<Longrightarrow>
   float64_round x =
     of_int (round_half_even (x * 2 powi (52 - float64_exponent x)))
       * 2 powi (float64_exponent x - 52)"
  by (simp add: float64_round_def Let_def scale2_powi)

lemma float64_round_minus: "float64_round (- x) = - float64_round x"
  by (simp add: float64_round_def Let_def sgn_minus)

text \<open>A number with at most 53 significant bits is a double.\<close>

lemma float64_round_exact_pos:
  assumes m: "0 < m" "m < 2 ^ 53"
  shows "float64_round (of_int m * 2 powi k) = of_int m * 2 powi k"
proof -
  define x :: real where "x = of_int m * 2 powi k"
  define e where "e = float64_exponent x"
  have xpos: "0 < x" using m by (simp add: x_def)
  have b: "2 powi e \<le> x" "x < 2 powi (e + 1)"
    using float64_exponent_bounds [OF xpos] by (simp_all add: e_def)
  have "real_of_int m < 2 ^ 53"
    using m(2) by (metis of_int_less_iff of_int_numeral of_int_power)
  then have "x < 2 ^ 53 * 2 powi k"
    by (simp add: x_def)
  also have "\<dots> = 2 powi (53 + k)"
    by (simp add: power_int_add)
  finally have "(2::real) powi e < 2 powi (53 + k)"
    using b(1) by linarith
  then have "e < 53 + k" by (rule powi2_less_imp)
  then have nn: "0 \<le> k + 52 - e" by simp
  have "x * 2 powi (52 - e) = of_int m * (2 powi k * 2 powi (52 - e))"
    by (simp add: x_def)
  also have "2 powi k * (2::real) powi (52 - e) = 2 powi (k + 52 - e)"
    by (simp add: power_int_add [symmetric] algebra_simps)
  also have "\<dots> = 2 ^ nat (k + 52 - e)"
    using nn by (simp add: power_int_def)
  finally have "x * 2 powi (52 - e) = of_int (m * 2 ^ nat (k + 52 - e))"
    by simp
  then have "round_half_even (x * 2 powi (52 - e)) = m * 2 ^ nat (k + 52 - e)"
    by (simp only: round_half_even_of_int)
  then have "float64_round x = of_int (m * 2 ^ nat (k + 52 - e)) * 2 powi (e - 52)"
    using float64_round_pos [OF xpos] by (simp add: e_def)
  also have "\<dots> = of_int m * (2 powi (k + 52 - e) * 2 powi (e - 52))"
    using nn by (simp add: power_int_def)
  also have "2 powi (k + 52 - e) * (2::real) powi (e - 52) = 2 powi k"
    by (simp add: power_int_add [symmetric])
  finally show ?thesis by (simp add: x_def)
qed

lemma float64_round_int_exact:
  assumes "\<bar>n\<bar> \<le> 2 ^ 53"
  shows "float64_round (of_int n) = of_int n"
proof -
  have pos: "float64_round (of_int a) = of_int a" if a: "0 < a" "a \<le> 2 ^ 53" for a :: int
  proof (cases "a = 2 ^ 53")
    case True
    have "float64_round (of_int 1 * 2 powi 53) = of_int 1 * 2 powi 53"
      by (rule float64_round_exact_pos) simp_all
    then show ?thesis using True by simp
  next
    case False
    then have "a < 2 ^ 53" using a by simp
    from float64_round_exact_pos [OF a(1) this, of 0] show ?thesis by simp
  qed
  show ?thesis
  proof (cases n "0::int" rule: linorder_cases)
    case equal
    then show ?thesis by (simp add: float64_round_def)
  next
    case greater
    then show ?thesis using pos [of n] assms by simp
  next
    case less
    then have "float64_round (of_int (- n)) = of_int (- n)"
      using pos [of "- n"] assms by simp
    then show ?thesis
      using float64_round_minus [of "of_int n"] by simp
  qed
qed

lemma float64_of_int_exact: "\<bar>n\<bar> \<le> 2 ^ 53 \<Longrightarrow> float64_of_int n = n"
  by (simp add: float64_of_int_def float64_round_int_exact)

lemma float64_round_one: "float64_round 1 = 1"
  using float64_round_int_exact [of 1] by simp

lemma float64_round_two: "float64_round 2 = 2"
  using float64_round_int_exact [of 2] by simp

lemma float64_round_half: "float64_round (1 / 2) = 1 / 2"
  using float64_round_exact_pos [of 1 "- 1"] by (simp add: power_int_minus)

text \<open>Rounding within the unit interval stays there, and moves up by at most \<open>2^-54\<close>.\<close>

lemma float64_round_unit:
  assumes "0 \<le> x" "x \<le> 1"
  shows "0 \<le> float64_round x \<and> float64_round x \<le> 1 \<and> float64_round x \<le> x + 1 / 2 ^ 54"
proof (cases "x = 0 \<or> x = 1")
  case True
  then show ?thesis
  proof
    assume "x = 0" then show ?thesis by (simp add: float64_round_def)
  next
    assume "x = 1"
    moreover have "float64_round (of_int 1) = of_int 1"
      by (rule float64_round_int_exact) simp
    ultimately show ?thesis by simp
  qed
next
  case False
  then have x: "0 < x" "x < 1" using assms by simp_all
  define e where "e = float64_exponent x"
  define y where "y = x * 2 powi (52 - e)"
  define M where "M = round_half_even y"
  have b: "2 powi e \<le> x" "x < 2 powi (e + 1)"
    using float64_exponent_bounds [OF x(1)] by (simp_all add: e_def)
  have "(2::real) powi e < 2 powi 0" using b(1) x(2) by simp
  then have e: "e \<le> - 1" using powi2_less_imp by fastforce
  have p: "0 < (2::real) powi (52 - e)" by simp
  have "y < 2 powi (e + 1) * 2 powi (52 - e)"
    unfolding y_def using b(2) p by (rule mult_strict_right_mono)
  also have "\<dots> = 2 ^ 53"
    by (simp add: power_int_add [symmetric])
  finally have y53: "y < 2 ^ 53" .
  have ypos: "0 \<le> y" using x(1) by (simp add: y_def)
  have rb: "\<lfloor>y\<rfloor> \<le> M" "M \<le> \<lfloor>y\<rfloor> + 1" "real_of_int M \<le> y + 1 / 2"
    using round_half_even_bounds [of y] by (simp_all add: M_def)
  have "\<lfloor>y\<rfloor> < 2 ^ 53"
    using y53 by (simp add: floor_less_iff)
  then have M53: "M \<le> 2 ^ 53" using rb(2) by linarith
  have "0 \<le> \<lfloor>y\<rfloor>" using ypos by simp
  then have M0: "0 \<le> M" using rb(1) by linarith
  have fr: "float64_round x = of_int M * 2 powi (e - 52)"
    using float64_round_pos [OF x(1)] by (simp add: M_def y_def e_def)
  have q: "0 < (2::real) powi (e - 52)" by simp
  have c1: "0 \<le> float64_round x"
    unfolding fr using M0 by simp
  have "real_of_int M \<le> 2 ^ 53"
    using M53 by (metis of_int_le_iff of_int_numeral of_int_power)
  then have "of_int M * 2 powi (e - 52) \<le> 2 ^ 53 * (2::real) powi (e - 52)"
    using q by (simp add: mult_right_mono)
  also have "\<dots> = 2 powi (e + 1)"
    using power_int_add [of "2::real" 53 "e - 52"] by (simp add: add.commute)
  also have "\<dots> \<le> 2 powi 0"
    using e by (intro power_int_increasing) simp_all
  finally have c2: "float64_round x \<le> 1"
    unfolding fr by simp
  have "of_int M * 2 powi (e - 52) \<le> (y + 1 / 2) * (2::real) powi (e - 52)"
    using rb(3) q by (simp add: mult_right_mono)
  also have "\<dots> = x * (2 powi (52 - e) * 2 powi (e - 52)) + 2 powi (- 1) * 2 powi (e - 52)"
    by (simp add: y_def algebra_simps power_int_minus)
  also have "2 powi (52 - e) * (2::real) powi (e - 52) = 1"
    by (simp add: power_int_add [symmetric])
  also have "2 powi (- 1) * (2::real) powi (e - 52) = 2 powi (e - 53)"
    using power_int_add [of "2::real" "- 1" "e - 52"] by simp
  finally have "of_int M * 2 powi (e - 52) \<le> x + (2::real) powi (e - 53)"
    by simp
  moreover have "(2::real) powi (e - 53) \<le> 2 powi (- 54)"
    using e by (intro power_int_increasing) simp_all
  moreover have "(2::real) powi (- 54) = 1 / 2 ^ 54"
    by (simp add: power_int_def field_simps)
  ultimately have c3: "float64_round x \<le> x + 1 / 2 ^ 54"
    unfolding fr by linarith
  from c1 c2 c3 show ?thesis by blast
qed

text \<open>Just above one, rounding goes down to one (the tie goes to the even significand).\<close>

lemma float64_round_above_one:
  assumes "1 \<le> x" "x \<le> 1 + 1 / 2 ^ 53"
  shows "float64_round x = 1"
proof -
  define e where "e = float64_exponent x"
  have xpos: "0 < x" using assms by simp
  have b: "2 powi e \<le> x" "x < 2 powi (e + 1)"
    using float64_exponent_bounds [OF xpos] by (simp_all add: e_def)
  have "x < 2" using assms(2) by (simp add: field_simps)
  then have "(2::real) powi e < 2 powi 1" using b(1) by simp
  then have "e < 1" by (rule powi2_less_imp)
  moreover have "(2::real) powi 0 < 2 powi (e + 1)" using b(2) assms(1) by simp
  then have "0 < e + 1" by (rule powi2_less_imp)
  ultimately have e: "e = 0" by simp
  define y where "y = x * 2 ^ 52"
  have y: "2 ^ 52 \<le> y" "y \<le> 2 ^ 52 + 1 / 2"
    using assms by (simp_all add: y_def field_simps)
  have fl: "\<lfloor>y\<rfloor> = 2 ^ 52"
    using y by (intro floor_unique) simp_all
  have "round_half_even y = 2 ^ 52"
    using y by (simp add: round_half_even_def Let_def fl)
  then show ?thesis
    using float64_round_pos [OF xpos] e by (simp add: e_def [symmetric] y_def)
qed

text \<open>
  Two fractions of the same whole, each rounded to a double, add up to at most one in
  double precision.
\<close>

lemma float64_add_fractions_le_one:
  fixes a b n :: nat
  assumes "a + b \<le> n" "0 < n"
  shows "float64_add (float64_round (real a / real n)) (float64_round (real b / real n)) \<le> 1"
proof -
  have ua: "0 \<le> real a / real n" "real a / real n \<le> 1"
    and ub: "0 \<le> real b / real n" "real b / real n \<le> 1"
    using assms by simp_all
  define p where "p = float64_round (real a / real n)"
  define q where "q = float64_round (real b / real n)"
  have p: "0 \<le> p" "p \<le> real a / real n + 1 / 2 ^ 54"
    using float64_round_unit [OF ua] by (simp_all add: p_def)
  have q: "0 \<le> q" "q \<le> real b / real n + 1 / 2 ^ 54"
    using float64_round_unit [OF ub] by (simp_all add: q_def)
  have "real a / real n + real b / real n = real (a + b) / real n"
    by (simp add: add_divide_distrib)
  also have "\<dots> \<le> 1" using assms by simp
  finally have "p + q \<le> 1 + (1 / 2 ^ 54 + 1 / 2 ^ 54)"
    using p(2) q(2) by linarith
  then have s: "p + q \<le> 1 + 1 / 2 ^ 53" by simp
  have "float64_round (p + q) \<le> 1"
  proof (cases "p + q \<le> 1")
    case True
    then show ?thesis using float64_round_unit [of "p + q"] p(1) q(1) by simp
  next
    case False
    then have "float64_round (p + q) = 1"
      using s by (intro float64_round_above_one) simp_all
    then show ?thesis by simp
  qed
  then show ?thesis by (simp add: float64_add_def p_def q_def)
qed

text \<open>The conversions of some integers near \<open>2^63\<close>, where doubles are 1024 or 2048 apart.\<close>

lemma float64_of_int_2_63_minus_2: "float64_of_int 9223372036854775806 = 9223372036854775808"
proof -
  have bl: "bit_length 9223372036854775806 = 63"
    by (simp add: bit_length.simps)
  show ?thesis
    by (simp add: float64_of_int_def float64_round_def float64_exponent_def bl scale2_def
        round_half_even_def Let_def)
qed

lemma float64_of_int_below_2_63: "float64_of_int 9223372036854775807 = 9223372036854775808"
proof -
  have bl: "bit_length 9223372036854775807 = 63"
    by (simp add: bit_length.simps)
  show ?thesis
    by (simp add: float64_of_int_def float64_round_def float64_exponent_def bl scale2_def
        round_half_even_def Let_def)
qed

lemma float64_of_int_2_63: "float64_of_int 9223372036854775808 = 9223372036854775808"
proof -
  have bl: "bit_length 9223372036854775808 = 64"
    by (simp add: bit_length.simps)
  show ?thesis
    by (simp add: float64_of_int_def float64_round_def float64_exponent_def bl scale2_def
        round_half_even_def Let_def)
qed

lemma float64_of_int_above_2_63: "float64_of_int 9223372036854775809 = 9223372036854775808"
proof -
  have bl: "bit_length 9223372036854775809 = 64"
    by (simp add: bit_length.simps)
  show ?thesis
    by (simp add: float64_of_int_def float64_round_def float64_exponent_def bl scale2_def
        round_half_even_def Let_def)
qed

section \<open>Arrays made from Python integers: when they are exact\<close>

lemma length_np_array: "length (np_array xs) = length xs"
  by (simp add: np_array_def)

lemma np_array_exact: "\<not> promoted_to_float64 xs \<Longrightarrow> np_array xs = xs"
  by (simp add: np_array_def)

lemma int64_not_uint64: "fits_int64 x \<Longrightarrow> \<not> fits_uint64 x"
  by (simp add: fits_int64_def fits_uint64_def)

lemma all_int64_not_promoted: "list_all fits_int64 xs \<Longrightarrow> \<not> promoted_to_float64 xs"
  by (auto simp: promoted_to_float64_def list_all_iff list_ex_iff dest: int64_not_uint64)

lemma np_array_single: "np_array [x] = [x]"
  by (auto simp: np_array_def promoted_to_float64_def dest: int64_not_uint64)

lemma np_array_eq_exact:
  "\<not> promoted_to_float64 xs \<Longrightarrow> np_array_eq xs v = map (\<lambda>x. x = v) xs"
  by (simp add: np_array_eq_def)

section \<open>The loop of the absorbing walk\<close>

text \<open>The three ways through one iteration.\<close>

lemma loop_stop:
  "\<not> t \<le> m \<Longrightarrow> absorbing_loop l r p m t pos path g = ((np_array path, m, pos), g)"
  by (simp add: absorbing_loop.simps)

lemma loop_absorb:
  "t \<le> m \<Longrightarrow> absorbed l r (pos + step_of p g) \<Longrightarrow>
   absorbing_loop l r p m t pos path g
     = ((np_array (path @ [pos + step_of p g]), t, pos + step_of p g), snd (rand_scalar g))"
  by (simp add: absorbing_loop.simps [of l r p m t pos path g] step_of_def absorbed_def Let_def)

lemma loop_continue:
  "t \<le> m \<Longrightarrow> \<not> absorbed l r (pos + step_of p g) \<Longrightarrow>
   absorbing_loop l r p m t pos path g
     = absorbing_loop l r p m (t + 1) (pos + step_of p g) (path @ [pos + step_of p g])
         (snd (rand_scalar g))"
  by (simp add: absorbing_loop.simps [of l r p m t pos path g] step_of_def absorbed_def Let_def)

lemma step_of_unit: "\<bar>step_of p g\<bar> = 1"
  by (simp add: step_of_def)

text \<open>The loop meets its postcondition, by induction along its own recursion.\<close>

lemma loop_spec:
  "\<exists>ext. loop_post l r m t pos path g (absorbing_loop l r p m t pos path g) ext"
proof (induction l r p m t pos path g rule: absorbing_loop.induct)
  case (1 l r p m t pos path g)
  let ?pos' = "pos + step_of p g"
  show ?case
  proof (cases "t \<le> m")
    case False
    then have "loop_post l r m t pos path g (absorbing_loop l r p m t pos path g) []"
      by (simp add: loop_stop loop_post_def path_of_def hit_time_of_def hit_location_of_def)
    then show ?thesis ..
  next
    case True
    show ?thesis
    proof (cases "absorbed l r ?pos'")
      case True
      with \<open>t \<le> m\<close>
      have "loop_post l r m t pos path g (absorbing_loop l r p m t pos path g) [?pos']"
        by (simp add: loop_absorb loop_post_def path_of_def hit_time_of_def hit_location_of_def
            rand_scalar_def step_of_unit)
      then show ?thesis ..
    next
      case False
      have na: "\<not> (?pos' \<le> l \<or> r \<le> ?pos')"
        using False by (simp add: absorbed_def)
      from "1.IH" [OF \<open>t \<le> m\<close> refl refl refl na [unfolded step_of_def]]
      obtain ext where
        ih: "loop_post l r m (t + 1) ?pos' (path @ [?pos']) (snd (rand_scalar g))
               (absorbing_loop l r p m (t + 1) ?pos' (path @ [?pos']) (snd (rand_scalar g))) ext"
        by (auto simp: step_of_def)
      have eq: "absorbing_loop l r p m t pos path g
          = absorbing_loop l r p m (t + 1) ?pos' (path @ [?pos']) (snd (rand_scalar g))"
        using loop_continue [OF \<open>t \<le> m\<close> False] .
      let ?R = "absorbing_loop l r p m (t + 1) ?pos' (path @ [?pos']) (snd (rand_scalar g))"
      have c1: "path_of ?R = np_array (path @ (?pos' # ext))"
        using ih by (simp add: loop_post_def)
      have c2: "hit_location_of ?R = last (pos # ?pos' # ext)"
        using ih by (simp add: loop_post_def)
      have c3: "drawn (snd ?R) = drawn g + length (?pos' # ext)"
        using ih by (simp add: loop_post_def rand_scalar_def)
      have c4: "tape (snd ?R) = tape g"
        using ih by (simp add: loop_post_def rand_scalar_def)
      have c5: "hit_time_of ?R \<le> m"
        using ih by (simp add: loop_post_def)
      have c6: "t \<le> m + 1 \<longrightarrow> hit_time_of ?R = t - 1 + int (length (?pos' # ext))"
        using ih \<open>t \<le> m\<close> by (simp add: loop_post_def)
      have c7: "\<forall>i. Suc i < length (?pos' # ext) \<longrightarrow> \<not> absorbed l r ((?pos' # ext) ! i)"
      proof (intro allI impI)
        fix i assume "Suc i < length (?pos' # ext)"
        then show "\<not> absorbed l r ((?pos' # ext) ! i)"
          using ih False by (cases i) (simp_all add: loop_post_def)
      qed
      have c8: "(?pos' # ext) \<noteq> [] \<and> absorbed l r (last (?pos' # ext))
             \<or> hit_time_of ?R = m \<and> (\<forall>x\<in>set (?pos' # ext). \<not> absorbed l r x)"
        using ih False by (auto simp: loop_post_def)
      have c9: "\<forall>i<length (?pos' # ext). \<bar>(pos # ?pos' # ext) ! Suc i - (pos # ?pos' # ext) ! i\<bar> = 1"
      proof (intro allI impI)
        fix i assume "i < length (?pos' # ext)"
        then show "\<bar>(pos # ?pos' # ext) ! Suc i - (pos # ?pos' # ext) ! i\<bar> = 1"
          using ih by (cases i) (simp_all add: loop_post_def step_of_unit)
      qed
      have "loop_post l r m t pos path g (absorbing_loop l r p m t pos path g) (?pos' # ext)"
        unfolding eq loop_post_def using c1 c2 c3 c4 c5 c6 c7 c8 c9 by blast
      then show ?thesis ..
    qed
  qed
qed

lemma walk_spec:
  "\<exists>ext. loop_post l r m 1 start [start] g (random_walk_absorbing l r start p m g) ext"
  unfolding random_walk_absorbing_def by (rule loop_spec)

lemma walk_no_budget:
  "m \<le> 0 \<Longrightarrow> random_walk_absorbing l r start p m g = (([start], m, start), g)"
  by (simp add: random_walk_absorbing_def loop_stop np_array_single)

lemma walk_hit_time_range:
  assumes "0 \<le> m"
  shows "0 \<le> hit_time_of (random_walk_absorbing l r start p m g)
       \<and> hit_time_of (random_walk_absorbing l r start p m g) \<le> m"
proof -
  let ?R = "random_walk_absorbing l r start p m g"
  obtain ext where post: "loop_post l r m 1 start [start] g ?R ext"
    using walk_spec by blast
  have "1 \<le> m + 1 \<longrightarrow> hit_time_of ?R = 1 - 1 + int (length ext)"
    using post unfolding loop_post_def by blast
  then have "hit_time_of ?R = int (length ext)"
    using assms by simp
  moreover have "hit_time_of ?R \<le> m"
    using post unfolding loop_post_def by blast
  ultimately show ?thesis by simp
qed

text \<open>
  From a start strictly between the boundaries the walk cannot jump over one: the position
  before the last was still strictly inside, and the last step has size one.
\<close>

lemma last_step_inside:
  assumes post: "loop_post l r m t pos path g R ext"
    and inside: "l < pos" "pos < r"
  shows "l \<le> last (pos # ext) \<and> last (pos # ext) \<le> r"
proof (cases "ext = []")
  case True
  then show ?thesis using inside by simp
next
  case False
  define n where "n = length ext - 1"
  have n: "Suc n = length ext" using False by (simp add: n_def)
  have lst: "last (pos # ext) = (pos # ext) ! Suc n"
    using False n by (simp add: last_conv_nth n_def)
  have "\<forall>i<length ext. \<bar>(pos # ext) ! Suc i - (pos # ext) ! i\<bar> = 1"
    using post unfolding loop_post_def by blast
  moreover have "n < length ext" using n by linarith
  ultimately have stp: "\<bar>(pos # ext) ! Suc n - (pos # ext) ! n\<bar> = 1"
    by blast
  have "\<not> absorbed l r ((pos # ext) ! n)"
  proof (cases n)
    case 0
    then show ?thesis using inside by (simp add: absorbed_def)
  next
    case (Suc k)
    then have "Suc k < length ext" using n by simp
    moreover have "\<forall>i. Suc i < length ext \<longrightarrow> \<not> absorbed l r (ext ! i)"
      using post unfolding loop_post_def by blast
    ultimately have "\<not> absorbed l r (ext ! k)" by blast
    then show ?thesis using Suc by simp
  qed
  then have "l < (pos # ext) ! n \<and> (pos # ext) ! n < r"
    by (auto simp: absorbed_def)
  with stp lst show ?thesis by linarith
qed

lemma first_draw_in_unit_interval:
  "unit_interval_draws g \<Longrightarrow> 0 \<le> fst (rand_scalar g) \<and> fst (rand_scalar g) < 1"
  by (simp add: unit_interval_draws_def rand_scalar_def)

section \<open>The absorbing walk: where it stops\<close>

text \<open>
  Claim C1. For \<open>left < start < right\<close>: when the final position satisfies the absorption
  condition (\<open>pos \<le> left\<close> or \<open>pos \<ge> right\<close>), the returned hit location is \<open>left\<close> or
  \<open>right\<close> exactly, never a position beyond a boundary. A hit location strictly between
  the boundaries occurs only on budget exhaustion: then the hit time is \<open>max_steps\<close> and
  the path is the array of positions none of which satisfies the absorption condition.
\<close>

theorem absorbing_hits_boundary_exactly:
  assumes "left < start" and "start < right"
  shows "(absorbed left right (hit_location_of (random_walk_absorbing left right start p max_steps g))
          \<longrightarrow> hit_location_of (random_walk_absorbing left right start p max_steps g) = left
            \<or> hit_location_of (random_walk_absorbing left right start p max_steps g) = right)
       \<and> (left < hit_location_of (random_walk_absorbing left right start p max_steps g)
          \<and> hit_location_of (random_walk_absorbing left right start p max_steps g) < right
          \<longrightarrow> hit_time_of (random_walk_absorbing left right start p max_steps g) = max_steps
            \<and> (\<exists>positions.
                  path_of (random_walk_absorbing left right start p max_steps g) = np_array positions
                  \<and> (\<forall>x\<in>set positions. \<not> absorbed left right x)))"
proof -
  let ?R = "random_walk_absorbing left right start p max_steps g"
  obtain ext where post: "loop_post left right max_steps 1 start [start] g ?R ext"
    using walk_spec by blast
  have loc: "hit_location_of ?R = last (start # ext)"
    using post unfolding loop_post_def by blast
  have "path_of ?R = np_array ([start] @ ext)"
    using post unfolding loop_post_def by blast
  then have path: "path_of ?R = np_array (start # ext)"
    by simp
  have bounds: "left \<le> hit_location_of ?R \<and> hit_location_of ?R \<le> right"
    using last_step_inside [OF post assms] loc by simp
  have a: "absorbed left right (hit_location_of ?R)
      \<longrightarrow> hit_location_of ?R = left \<or> hit_location_of ?R = right"
    using bounds by (auto simp: absorbed_def)
  have b: "left < hit_location_of ?R \<and> hit_location_of ?R < right
      \<longrightarrow> hit_time_of ?R = max_steps
        \<and> (\<exists>positions. path_of ?R = np_array positions
              \<and> (\<forall>x\<in>set positions. \<not> absorbed left right x))"
  proof
    assume in_: "left < hit_location_of ?R \<and> hit_location_of ?R < right"
    have "\<not> (ext \<noteq> [] \<and> absorbed left right (last ext))"
      using in_ loc by (auto simp: absorbed_def)
    then have e: "hit_time_of ?R = max_steps \<and> (\<forall>x\<in>set ext. \<not> absorbed left right x)"
      using post unfolding loop_post_def by blast
    moreover have "\<not> absorbed left right start"
      using assms by (simp add: absorbed_def)
    ultimately have "\<forall>x\<in>set (start # ext). \<not> absorbed left right x"
      by simp
    with path have "\<exists>positions. path_of ?R = np_array positions
        \<and> (\<forall>x\<in>set positions. \<not> absorbed left right x)"
      by blast
    with e show "hit_time_of ?R = max_steps
        \<and> (\<exists>positions. path_of ?R = np_array positions
              \<and> (\<forall>x\<in>set positions. \<not> absorbed left right x))"
      by blast
  qed
  from a b show ?thesis by blast
qed

theorem absorbing_hits_boundary_exactly_witness:
  "(- 2 :: int) < 0 \<and> (0 :: int) < 2
   \<and> hit_time_of (random_walk_absorbing (- 2) 2 0 (1 / 2) 10 (cycle_rng [1 / 4, 3 / 4, 1 / 4, 1 / 4])) = 4
   \<and> absorbed (- 2) 2 (hit_location_of (random_walk_absorbing (- 2) 2 0 (1 / 2) 10 (cycle_rng [1 / 4, 3 / 4, 1 / 4, 1 / 4])))
   \<and> hit_location_of (random_walk_absorbing (- 2) 2 0 (1 / 2) 10 (cycle_rng [1 / 4, 3 / 4, 1 / 4, 1 / 4])) = 2"
  using absorbing_hits_boundary_exactly
    [of "- 2" 0 2 "1 / 2" 10 "cycle_rng [1 / 4, 3 / 4, 1 / 4, 1 / 4]"]
  by (simp add: random_walk_absorbing_def absorbing_loop.simps rand_scalar_def cycle_rng_def
      hit_location_of_def hit_time_of_def absorbed_def)

section \<open>The absorbing walk: the shape of the path\<close>

text \<open>
  Claim C2, amended. For every call the returned path is the array made from the positions
  visited, which begin with \<open>start\<close> and end with the returned hit location. Unless these
  positions mix values below \<open>2^63\<close> with values from \<open>2^63\<close> up to \<open>2^64 - 1\<close> (numpy
  then stores them as rounded doubles), the path holds them exactly: it begins with
  \<open>start\<close> and ends with the hit location. For \<open>max_steps \<ge> 0\<close> the path has length
  exactly \<open>hit_time + 1\<close>. The hit time is the 1-indexed tick of the first absorption (the
  position at that tick satisfies the absorption condition and none at an earlier tick
  does), or it is \<open>max_steps\<close> and no tick was absorbing.
\<close>

theorem absorbing_path_shape:
  "\<exists>positions.
      path_of (random_walk_absorbing left right start p max_steps g) = np_array positions
    \<and> positions \<noteq> [] \<and> hd positions = start
    \<and> last positions = hit_location_of (random_walk_absorbing left right start p max_steps g)
    \<and> (\<not> promoted_to_float64 positions \<longrightarrow>
          path_of (random_walk_absorbing left right start p max_steps g) = positions
        \<and> hd (path_of (random_walk_absorbing left right start p max_steps g)) = start
        \<and> last (path_of (random_walk_absorbing left right start p max_steps g))
            = hit_location_of (random_walk_absorbing left right start p max_steps g))
    \<and> (0 \<le> max_steps \<longrightarrow>
          int (length (path_of (random_walk_absorbing left right start p max_steps g)))
            = hit_time_of (random_walk_absorbing left right start p max_steps g) + 1)
    \<and> (\<forall>i. 1 \<le> i \<and> int i < hit_time_of (random_walk_absorbing left right start p max_steps g)
          \<longrightarrow> \<not> absorbed left right (positions ! i))
    \<and> (1 \<le> hit_time_of (random_walk_absorbing left right start p max_steps g)
        \<and> absorbed left right
            (positions ! nat (hit_time_of (random_walk_absorbing left right start p max_steps g)))
       \<or> hit_time_of (random_walk_absorbing left right start p max_steps g) = max_steps
        \<and> (\<forall>i. 1 \<le> i \<and> int i \<le> max_steps \<longrightarrow> \<not> absorbed left right (positions ! i)))"
proof (cases "0 \<le> max_steps")
  case False
  let ?R = "random_walk_absorbing left right start p max_steps g"
  have R: "?R = (([start], max_steps, start), g)"
    using False by (simp add: walk_no_budget)
  have "path_of ?R = np_array [start]"
    by (simp add: R path_of_def np_array_single)
  moreover have "hit_location_of ?R = start" "hit_time_of ?R = max_steps" "path_of ?R = [start]"
    by (simp_all add: R hit_location_of_def hit_time_of_def path_of_def)
  ultimately show ?thesis
    using False by (intro exI [of _ "[start]"]) simp
next
  case True
  let ?R = "random_walk_absorbing left right start p max_steps g"
  obtain ext where post: "loop_post left right max_steps 1 start [start] g ?R ext"
    using walk_spec by blast
  let ?ps = "start # ext"
  have "path_of ?R = np_array ([start] @ ext)"
    using post unfolding loop_post_def by blast
  then have path: "path_of ?R = np_array ?ps"
    by simp
  have loc: "hit_location_of ?R = last ?ps"
    using post unfolding loop_post_def by blast
  have "1 \<le> max_steps + 1 \<longrightarrow> hit_time_of ?R = 1 - 1 + int (length ext)"
    using post unfolding loop_post_def by blast
  then have time: "hit_time_of ?R = int (length ext)"
    using True by simp
  have early: "\<forall>i. Suc i < length ext \<longrightarrow> \<not> absorbed left right (ext ! i)"
    using post unfolding loop_post_def by blast
  have final: "ext \<noteq> [] \<and> absorbed left right (last ext)
      \<or> hit_time_of ?R = max_steps \<and> (\<forall>x\<in>set ext. \<not> absorbed left right x)"
    using post unfolding loop_post_def by blast
  have c1: "?ps \<noteq> []" and c2: "hd ?ps = start" and c3: "last ?ps = hit_location_of ?R"
    using loc by simp_all
  have c4: "\<not> promoted_to_float64 ?ps \<longrightarrow>
      path_of ?R = ?ps \<and> hd (path_of ?R) = start \<and> last (path_of ?R) = hit_location_of ?R"
    using path loc by (simp add: np_array_exact)
  have c5: "0 \<le> max_steps \<longrightarrow> int (length (path_of ?R)) = hit_time_of ?R + 1"
    using path time by (simp add: length_np_array)
  have c6: "\<forall>i. 1 \<le> i \<and> int i < hit_time_of ?R \<longrightarrow> \<not> absorbed left right (?ps ! i)"
  proof (intro allI impI)
    fix i :: nat
    assume i: "1 \<le> i \<and> int i < hit_time_of ?R"
    then obtain k where k: "i = Suc k" by (cases i) auto
    with i time have "Suc k < length ext" by simp
    with early have "\<not> absorbed left right (ext ! k)" by blast
    then show "\<not> absorbed left right (?ps ! i)"
      using k by simp
  qed
  have c7: "1 \<le> hit_time_of ?R \<and> absorbed left right (?ps ! nat (hit_time_of ?R))
      \<or> hit_time_of ?R = max_steps
        \<and> (\<forall>i. 1 \<le> i \<and> int i \<le> max_steps \<longrightarrow> \<not> absorbed left right (?ps ! i))"
    using final
  proof
    assume a: "ext \<noteq> [] \<and> absorbed left right (last ext)"
    then obtain k where k: "length ext = Suc k" by (cases ext) auto
    have "nat (hit_time_of ?R) = Suc k"
      using time k by simp
    moreover have "last ext = ext ! k"
      using a k by (simp add: last_conv_nth)
    ultimately have "?ps ! nat (hit_time_of ?R) = last ext"
      by simp
    with a time k show ?thesis by simp
  next
    assume b: "hit_time_of ?R = max_steps \<and> (\<forall>x\<in>set ext. \<not> absorbed left right x)"
    have "\<forall>i. 1 \<le> i \<and> int i \<le> max_steps \<longrightarrow> \<not> absorbed left right (?ps ! i)"
    proof (intro allI impI)
      fix i :: nat
      assume i: "1 \<le> i \<and> int i \<le> max_steps"
      then obtain k where k: "i = Suc k" by (cases i) auto
      with i b time have "k < length ext" by simp
      then have "ext ! k \<in> set ext" by simp
      with b show "\<not> absorbed left right (?ps ! i)"
        using k by simp
    qed
    with b show ?thesis by blast
  qed
  from path c1 c2 c3 c4 c5 c6 c7 show ?thesis
    by (intro exI [of _ ?ps]) blast
qed

theorem absorbing_path_shape_witness:
  "path_of (random_walk_absorbing (- 5) 5 0 (1 / 2) 3 (cycle_rng [1 / 4, 3 / 4])) = [0, 1, 0, 1]
   \<and> \<not> promoted_to_float64 [0, 1, 0, 1]
   \<and> np_array [0, 1, 0, 1] = [0, 1, 0, 1]
   \<and> (0 :: int) \<le> 3
   \<and> hit_time_of (random_walk_absorbing (- 5) 5 0 (1 / 2) 3 (cycle_rng [1 / 4, 3 / 4])) = 3
   \<and> hit_location_of (random_walk_absorbing (- 5) 5 0 (1 / 2) 3 (cycle_rng [1 / 4, 3 / 4])) = 1
   \<and> (\<exists>positions.
        path_of (random_walk_absorbing (- 5) 5 0 (1 / 2) 3 (cycle_rng [1 / 4, 3 / 4]))
          = np_array positions
        \<and> hd positions = 0)"
proof -
  have np: "\<not> promoted_to_float64 [0, 1, 0, 1]"
    by (simp add: promoted_to_float64_def fits_uint64_def)
  have run: "random_walk_absorbing (- 5) 5 0 (1 / 2) 3 (cycle_rng [1 / 4, 3 / 4])
      = (([0, 1, 0, 1], 3, 1), Rng (tape (cycle_rng [1 / 4, 3 / 4])) 3)"
    by (simp add: random_walk_absorbing_def absorbing_loop.simps rand_scalar_def cycle_rng_def
        np_array_exact [OF np])
  obtain positions where
    "path_of (random_walk_absorbing (- 5) 5 0 (1 / 2) 3 (cycle_rng [1 / 4, 3 / 4]))
       = np_array positions" "hd positions = 0"
    using absorbing_path_shape [of "- 5" 5 0 "1 / 2" 3 "cycle_rng [1 / 4, 3 / 4]"] by blast
  then show ?thesis
    using np run by (auto simp: path_of_def hit_time_of_def hit_location_of_def np_array_exact)
qed

text \<open>
  As stated for every call, the claim fails twice. With \<open>max_steps = -1\<close> the path is
  \<open>[start]\<close>, of length 1, and the hit time is \<open>-1\<close>. From \<open>start = 2^63 - 1\<close> with
  \<open>p = 1\<close> and two steps the positions are \<open>2^63 - 1\<close>, \<open>2^63\<close>, \<open>2^63 + 1\<close>; the array
  holds the double \<open>2^63\<close> three times, so the path neither begins with \<open>start\<close> nor ends
  with the hit location \<open>2^63 + 1\<close>.
\<close>

theorem absorbing_path_shape_counterexample:
  "int (length (path_of (random_walk_absorbing (- 1) 1 0 (1 / 2) (- 1) (cycle_rng [1 / 4]))))
     \<noteq> hit_time_of (random_walk_absorbing (- 1) 1 0 (1 / 2) (- 1) (cycle_rng [1 / 4])) + 1
   \<and> path_of (random_walk_absorbing 0 9223372036854775813 9223372036854775807 1 2 (cycle_rng [0]))
       = [9223372036854775808, 9223372036854775808, 9223372036854775808]
   \<and> hit_location_of (random_walk_absorbing 0 9223372036854775813 9223372036854775807 1 2 (cycle_rng [0]))
       = 9223372036854775809
   \<and> hd (path_of (random_walk_absorbing 0 9223372036854775813 9223372036854775807 1 2 (cycle_rng [0])))
       \<noteq> 9223372036854775807
   \<and> last (path_of (random_walk_absorbing 0 9223372036854775813 9223372036854775807 1 2 (cycle_rng [0])))
       \<noteq> hit_location_of (random_walk_absorbing 0 9223372036854775813 9223372036854775807 1 2 (cycle_rng [0]))"
proof -
  have a: "int (length (path_of (random_walk_absorbing (- 1) 1 0 (1 / 2) (- 1) (cycle_rng [1 / 4]))))
     \<noteq> hit_time_of (random_walk_absorbing (- 1) 1 0 (1 / 2) (- 1) (cycle_rng [1 / 4])) + 1"
    by (simp add: walk_no_budget path_of_def hit_time_of_def)
  have pr: "promoted_to_float64 [9223372036854775807, 9223372036854775808, 9223372036854775809]"
    by (simp add: promoted_to_float64_def fits_int64_def fits_uint64_def)
  have arr: "np_array [9223372036854775807, 9223372036854775808, 9223372036854775809]
      = [9223372036854775808, 9223372036854775808, 9223372036854775808]"
    by (simp add: np_array_def pr float64_of_int_below_2_63 float64_of_int_2_63
        float64_of_int_above_2_63)
  have run: "random_walk_absorbing 0 9223372036854775813 9223372036854775807 1 2 (cycle_rng [0])
      = ((np_array [9223372036854775807, 9223372036854775808, 9223372036854775809], 2,
          9223372036854775809), Rng (tape (cycle_rng [0])) 2)"
    by (simp add: random_walk_absorbing_def absorbing_loop.simps rand_scalar_def cycle_rng_def)
  show ?thesis
    using a by (simp add: run arr path_of_def hit_location_of_def)
qed

section \<open>The absorbing walk: step, then check\<close>

text \<open>
  Claim C3. For every \<open>left\<close>, \<open>right\<close>, \<open>start\<close> and every \<open>max_steps \<ge> 1\<close> the
  absorption condition is checked only after a step: the returned hit time is at least 1,
  the path has at least two elements and at least one value has been drawn, also when
  \<open>start\<close> itself satisfies the absorption condition.
\<close>

theorem absorbing_steps_before_checking:
  assumes "1 \<le> max_steps"
  shows "1 \<le> hit_time_of (random_walk_absorbing left right start p max_steps g)
    \<and> 2 \<le> length (path_of (random_walk_absorbing left right start p max_steps g))
    \<and> drawn g < drawn (snd (random_walk_absorbing left right start p max_steps g))"
proof -
  let ?R = "random_walk_absorbing left right start p max_steps g"
  obtain ext where post: "loop_post left right max_steps 1 start [start] g ?R ext"
    using walk_spec by blast
  have "path_of ?R = np_array ([start] @ ext)"
    using post unfolding loop_post_def by blast
  then have path: "length (path_of ?R) = length (start # ext)"
    by (simp add: length_np_array)
  have "1 \<le> max_steps + 1 \<longrightarrow> hit_time_of ?R = 1 - 1 + int (length ext)"
    using post unfolding loop_post_def by blast
  then have time: "hit_time_of ?R = int (length ext)"
    using assms by simp
  have draws: "drawn (snd ?R) = drawn g + length ext"
    using post unfolding loop_post_def by blast
  have "ext \<noteq> [] \<and> absorbed left right (last ext)
      \<or> hit_time_of ?R = max_steps \<and> (\<forall>x\<in>set ext. \<not> absorbed left right x)"
    using post unfolding loop_post_def by blast
  then have "ext \<noteq> []"
    using time assms by auto
  then have "1 \<le> int (length ext)" and "2 \<le> length (start # ext)"
    and "drawn g < drawn g + length ext"
    by (cases ext; simp)+
  then show ?thesis
    unfolding path time draws by blast
qed

theorem absorbing_steps_before_checking_witness:
  "(1 :: int) \<le> 5
   \<and> random_walk_absorbing 0 10 0 (1 / 2) 5 (cycle_rng [1 / 4]) = (([0, 1, 2, 3, 4, 5], 5, 5), Rng (tape (cycle_rng [1 / 4])) 5)
   \<and> 1 \<le> hit_time_of (random_walk_absorbing 0 10 0 (1 / 2) 5 (cycle_rng [1 / 4]))
   \<and> 2 \<le> length (path_of (random_walk_absorbing 0 10 0 (1 / 2) 5 (cycle_rng [1 / 4])))"
  using absorbing_steps_before_checking [of 5 0 10 0 "1 / 2" "cycle_rng [1 / 4]"]
  by (simp add: random_walk_absorbing_def absorbing_loop.simps rand_scalar_def cycle_rng_def
      path_of_def hit_time_of_def np_array_def promoted_to_float64_def fits_uint64_def)

section \<open>The absorbing walk: the step budget\<close>

text \<open>
  Claim C4. The walk terminates on every input (\<open>absorbing_loop\<close> is total: its
  termination proof makes \<open>max_steps + 1 - t\<close> decrease at every iteration). Each iteration
  takes one draw and appends one position, so the number of iterations is the number of
  draws taken and the number of positions after \<open>start\<close>: it never exceeds \<open>max_steps\<close>
  (and is 0 when \<open>max_steps\<close> is negative), whatever \<open>p\<close> and the boundaries are. The
  returned hit time is at most \<open>max_steps\<close>.
\<close>

theorem absorbing_bounded_by_budget:
  "hit_time_of (random_walk_absorbing left right start p max_steps g) \<le> max_steps
   \<and> int (drawn (snd (random_walk_absorbing left right start p max_steps g))) - int (drawn g)
       \<le> max 0 max_steps
   \<and> int (length (path_of (random_walk_absorbing left right start p max_steps g))) - 1
       \<le> max 0 max_steps"
proof (cases "0 \<le> max_steps")
  case False
  then have "random_walk_absorbing left right start p max_steps g
      = (([start], max_steps, start), g)"
    by (simp add: walk_no_budget)
  then show ?thesis
    by (simp add: path_of_def hit_time_of_def)
next
  case True
  let ?R = "random_walk_absorbing left right start p max_steps g"
  obtain ext where post: "loop_post left right max_steps 1 start [start] g ?R ext"
    using walk_spec by blast
  have "path_of ?R = np_array ([start] @ ext)"
    using post unfolding loop_post_def by blast
  then have path: "length (path_of ?R) = length (start # ext)"
    by (simp add: length_np_array)
  have "1 \<le> max_steps + 1 \<longrightarrow> hit_time_of ?R = 1 - 1 + int (length ext)"
    using post unfolding loop_post_def by blast
  then have time: "hit_time_of ?R = int (length ext)"
    using True by simp
  have draws: "drawn (snd ?R) = drawn g + length ext"
    using post unfolding loop_post_def by blast
  have le: "hit_time_of ?R \<le> max_steps"
    using post unfolding loop_post_def by blast
  from path time draws le True show ?thesis by simp
qed

section \<open>The absorbing walk: an empty step budget\<close>

text \<open>
  Claim C10. When \<open>max_steps \<le> 0\<close> the range of the loop is empty: no step is taken and no
  value is drawn (the generator comes back unchanged). The result is the path \<open>[start]\<close>,
  the hit time \<open>max_steps\<close> and the hit location \<open>start\<close>, wherever \<open>start\<close> lies. For
  \<open>max_steps < 0\<close> the hit time is therefore negative, and the length of the path, 1, is
  not the hit time plus one.
\<close>

theorem absorbing_no_budget:
  assumes "max_steps \<le> 0"
  shows "random_walk_absorbing left right start p max_steps g = (([start], max_steps, start), g)
    \<and> (max_steps < 0 \<longrightarrow>
          hit_time_of (random_walk_absorbing left right start p max_steps g) < 0
        \<and> int (length (path_of (random_walk_absorbing left right start p max_steps g)))
            \<noteq> hit_time_of (random_walk_absorbing left right start p max_steps g) + 1)"
  using assms
  by (simp add: random_walk_absorbing_def absorbing_loop.simps path_of_def hit_time_of_def
      np_array_single)

theorem absorbing_no_budget_witness:
  "(- 3 :: int) \<le> 0
   \<and> random_walk_absorbing (- 1) 1 5 (1 / 2) (- 3) (cycle_rng [1 / 4])
       = (([5], - 3, 5), cycle_rng [1 / 4])
   \<and> hit_time_of (random_walk_absorbing (- 1) 1 5 (1 / 2) (- 3) (cycle_rng [1 / 4])) < 0"
  using absorbing_no_budget [of "- 3" "- 1" 1 5 "1 / 2" "cycle_rng [1 / 4]"]
  by (simp add: hit_time_of_def)

section \<open>The absorbing walk: degenerate biases\<close>

text \<open>
  Claim C6. With draws in \<open>[0, 1)\<close> the walk between \<open>-1\<close> and \<open>1\<close> from \<open>0\<close> with a
  budget of 100 does not depend on the draws when the bias is degenerate: with
  \<open>p = 1.0\<close> it returns the path \<open>[0, 1]\<close>, hit time 1 and hit location 1 (every draw is
  below 1), with \<open>p = 0.0\<close> the path \<open>[0, -1]\<close>, hit time 1 and hit location \<open>-1\<close> (no draw
  is below 0). One value is drawn in either case.
\<close>

theorem absorbing_degenerate_bias:
  assumes "unit_interval_draws g"
  shows "random_walk_absorbing (- 1) 1 0 1 100 g = (([0, 1], 1, 1), snd (rand_scalar g))
       \<and> random_walk_absorbing (- 1) 1 0 0 100 g = (([0, - 1], 1, - 1), snd (rand_scalar g))"
proof -
  have u: "0 \<le> fst (rand_scalar g)" "fst (rand_scalar g) < 1"
    using first_draw_in_unit_interval [OF assms] by simp_all
  have up: "step_of 1 g = 1" and down: "step_of 0 g = - 1"
    using u by (simp_all add: step_of_def)
  have "absorbing_loop (- 1) 1 1 100 1 0 [0] g = ((np_array ([0] @ [0 + step_of 1 g]), 1, 0 + step_of 1 g), snd (rand_scalar g))"
    by (rule loop_absorb) (simp_all add: up absorbed_def)
  moreover have "absorbing_loop (- 1) 1 0 100 1 0 [0] g = ((np_array ([0] @ [0 + step_of 0 g]), 1, 0 + step_of 0 g), snd (rand_scalar g))"
    by (rule loop_absorb) (simp_all add: down absorbed_def)
  ultimately show ?thesis
    by (simp add: random_walk_absorbing_def up down np_array_def promoted_to_float64_def
        fits_uint64_def)
qed

theorem absorbing_degenerate_bias_witness:
  "unit_interval_draws (cycle_rng [0])
   \<and> path_of (random_walk_absorbing (- 1) 1 0 1 100 (cycle_rng [0])) = [0, 1]
   \<and> path_of (random_walk_absorbing (- 1) 1 0 0 100 (cycle_rng [0])) = [0, - 1]"
proof -
  have h: "unit_interval_draws (cycle_rng [0])"
    by (simp add: unit_interval_draws_def cycle_rng_def)
  show ?thesis
    using h absorbing_degenerate_bias [OF h] by (simp add: path_of_def)
qed

section \<open>The hitting-time estimator: trials in order\<close>

lemma trial_rng_shift:
  "trial_rng l r s (snd (random_walk_absorbing l r s (1 / 2) 10000 g)) i = trial_rng l r s g (Suc i)"
  by (induction i) simp_all

lemma trial_shift:
  "trial l r s (snd (random_walk_absorbing l r s (1 / 2) 10000 g)) i = trial l r s g (Suc i)"
  unfolding trial_def trial_rng_shift ..

text \<open>The loop appends the hit time and the hit location of the trials in their order.\<close>

lemma hitting_loop_spec:
  "hitting_loop l r s k ts hs g =
     ((ts @ map (\<lambda>i. hit_time_of (trial l r s g i)) [0..<k],
       hs @ map (\<lambda>i. hit_location_of (trial l r s g i)) [0..<k]),
      trial_rng l r s g k)"
proof (induction k arbitrary: ts hs g)
  case 0
  show ?case by simp
next
  case (Suc k)
  let ?g1 = "snd (random_walk_absorbing l r s (1 / 2) 10000 g)"
  have t0: "trial l r s g 0 = random_walk_absorbing l r s (1 / 2) 10000 g"
    by (simp add: trial_def)
  have "hitting_loop l r s (Suc k) ts hs g =
      hitting_loop l r s k (ts @ [hit_time_of (trial l r s g 0)])
        (hs @ [hit_location_of (trial l r s g 0)]) ?g1"
    by (simp add: Let_def t0)
  also have "\<dots> =
     (((ts @ [hit_time_of (trial l r s g 0)]) @ map (\<lambda>i. hit_time_of (trial l r s ?g1 i)) [0..<k],
       (hs @ [hit_location_of (trial l r s g 0)]) @ map (\<lambda>i. hit_location_of (trial l r s ?g1 i)) [0..<k]),
      trial_rng l r s ?g1 k)"
    by (rule Suc.IH)
  also have "\<dots> =
     ((ts @ map (\<lambda>i. hit_time_of (trial l r s g i)) [0..<Suc k],
       hs @ map (\<lambda>i. hit_location_of (trial l r s g i)) [0..<Suc k]),
      trial_rng l r s g (Suc k))"
    unfolding trial_shift trial_rng_shift map_upt_Suc by simp
  finally show ?case .
qed

text \<open>Hit times lie between 0 and the budget, so the array of hit times is exact.\<close>

lemma trial_hit_time_int64: "fits_int64 (hit_time_of (trial l r s g i))"
  using walk_hit_time_range [of 10000 l r s "1 / 2" "trial_rng l r s g i"]
  by (simp add: trial_def fits_int64_def)

lemma np_array_trial_times:
  "np_array (map (\<lambda>i. hit_time_of (trial l r s g i)) [0..<n])
     = map (\<lambda>i. hit_time_of (trial l r s g i)) [0..<n]"
  by (rule np_array_exact, rule all_int64_not_promoted)
     (simp add: list_all_iff trial_hit_time_int64)

lemma disjoint_filters:
  "(\<And>x. \<not> (P x \<and> Q x)) \<Longrightarrow> length (filter P xs) + length (filter Q xs) \<le> length xs"
  by (induction xs) auto

lemma np_mean_bool_fraction:
  "xs \<noteq> [] \<Longrightarrow>
   np_mean_bool (map P xs)
     = Some (float64_round (real (length (filter P xs)) / real (length xs)))"
  by (simp add: np_mean_bool_def filter_map comp_def)

lemma one_trial_up:
  "random_walk_absorbing (- 1) 1 0 (1 / 2) 10000 (Rng f n) =
     (if f n < 1 / 2 then (([0, 1], 1, 1), Rng f (Suc n)) else (([0, - 1], 1, - 1), Rng f (Suc n)))"
  by (simp add: random_walk_absorbing_def absorbing_loop.simps rand_scalar_def Let_def
      np_array_def promoted_to_float64_def fits_uint64_def)

text \<open>
  Claim C5, amended. For every \<open>n_trials \<ge> 1\<close>, \<open>hitting_time\<close> returns the hit times of
  the \<open>n_trials\<close> trials in trial order (each trial run with \<open>p = 0.5\<close> and
  \<open>max_steps = 10000\<close>). Unless the hit locations mix values below \<open>2^63\<close> with values
  from \<open>2^63\<close> up to \<open>2^64 - 1\<close> (numpy then compares rounded doubles), \<open>prob_left\<close> is the
  fraction of trials whose hit location equals \<open>left\<close> exactly and \<open>prob_right\<close> the
  fraction whose hit location equals \<open>right\<close> exactly, each as the nearest double; a trial
  that ends at neither boundary counts toward neither; and when \<open>left \<noteq> right\<close> the two
  add up, in double precision, to at most 1.
\<close>

theorem hitting_time_statistics:
  assumes "1 \<le> n_trials"
  shows "fst (fst (hitting_time left right n_trials start g))
      = map (\<lambda>i. hit_time_of (trial left right start g i)) [0..<nat n_trials]
    \<and> snd (hitting_time left right n_trials start g)
      = trial_rng left right start g (nat n_trials)
    \<and> (\<not> promoted_to_float64 (trial_hits left right start g (nat n_trials)) \<longrightarrow>
        snd (fst (hitting_time left right n_trials start g))
          = (Some (float64_round
                    (real (length (filter (\<lambda>h. h = left)
                                    (trial_hits left right start g (nat n_trials))))
                       / real (nat n_trials))),
             Some (float64_round
                    (real (length (filter (\<lambda>h. h = right)
                                    (trial_hits left right start g (nat n_trials))))
                       / real (nat n_trials))))
      \<and> (left \<noteq> right \<longrightarrow>
            float64_add
              (float64_round
                 (real (length (filter (\<lambda>h. h = left)
                                 (trial_hits left right start g (nat n_trials))))
                    / real (nat n_trials)))
              (float64_round
                 (real (length (filter (\<lambda>h. h = right)
                                 (trial_hits left right start g (nat n_trials))))
                    / real (nat n_trials)))
            \<le> 1))"
proof -
  let ?n = "nat n_trials"
  let ?hits = "trial_hits left right start g ?n"
  let ?cl = "length (filter (\<lambda>h. h = left) ?hits)"
  let ?cr = "length (filter (\<lambda>h. h = right) ?hits)"
  have n: "0 < ?n" using assms by simp
  have len: "length ?hits = ?n" by (simp add: trial_hits_def)
  have ne: "?hits \<noteq> []" using n len by auto
  have loop: "hitting_loop left right start ?n [] [] g =
      ((map (\<lambda>i. hit_time_of (trial left right start g i)) [0..<?n], ?hits),
       trial_rng left right start g ?n)"
    by (simp add: hitting_loop_spec trial_hits_def)
  have first: "fst (fst (hitting_time left right n_trials start g))
      = map (\<lambda>i. hit_time_of (trial left right start g i)) [0..<?n]"
    by (simp add: hitting_time_def Let_def loop np_array_trial_times)
  have second: "snd (hitting_time left right n_trials start g)
      = trial_rng left right start g ?n"
    by (simp add: hitting_time_def Let_def loop)
  have third: "snd (fst (hitting_time left right n_trials start g))
          = (Some (float64_round (real ?cl / real ?n)), Some (float64_round (real ?cr / real ?n)))
      \<and> (left \<noteq> right \<longrightarrow>
            float64_add (float64_round (real ?cl / real ?n)) (float64_round (real ?cr / real ?n))
            \<le> 1)"
    if exact: "\<not> promoted_to_float64 ?hits"
  proof -
    have ml: "np_mean_bool (np_array_eq ?hits left) = Some (float64_round (real ?cl / real ?n))"
      using np_mean_bool_fraction [OF ne, of "\<lambda>h. h = left"]
      by (simp add: np_array_eq_exact [OF exact] len)
    have mr: "np_mean_bool (np_array_eq ?hits right) = Some (float64_round (real ?cr / real ?n))"
      using np_mean_bool_fraction [OF ne, of "\<lambda>h. h = right"]
      by (simp add: np_array_eq_exact [OF exact] len)
    have probs: "snd (fst (hitting_time left right n_trials start g))
          = (Some (float64_round (real ?cl / real ?n)), Some (float64_round (real ?cr / real ?n)))"
      by (simp add: hitting_time_def Let_def loop ml mr)
    have bound: "float64_add (float64_round (real ?cl / real ?n))
        (float64_round (real ?cr / real ?n)) \<le> 1" if "left \<noteq> right"
    proof -
      have "?cl + ?cr \<le> length ?hits"
        using that by (intro disjoint_filters) auto
      then have "?cl + ?cr \<le> ?n" using len by simp
      then show ?thesis using n by (rule float64_add_fractions_le_one)
    qed
    from probs bound show ?thesis by blast
  qed
  from first second third show ?thesis by blast
qed

theorem hitting_time_statistics_witness:
  "(1 :: int) \<le> 2
   \<and> trial_hits (- 1) 1 0 (cycle_rng [1 / 4, 3 / 4]) (nat 2) = [1, - 1]
   \<and> \<not> promoted_to_float64 [1, - 1]
   \<and> (- 1 :: int) \<noteq> 1
   \<and> fst (hitting_time (- 1) 1 2 0 (cycle_rng [1 / 4, 3 / 4]))
       = ([1, 1], (Some (1 / 2), Some (1 / 2)))
   \<and> float64_add (1 / 2) (1 / 2) \<le> 1
   \<and> fst (fst (hitting_time (- 1) 1 2 0 (cycle_rng [1 / 4, 3 / 4])))
       = map (\<lambda>i. hit_time_of (trial (- 1) 1 0 (cycle_rng [1 / 4, 3 / 4]) i)) [0..<nat 2]"
proof -
  have n: "nat 2 = Suc (Suc 0)" by simp
  have up: "[0..<Suc (Suc 0)] = [0, Suc 0]" by (simp add: upt_rec)
  have hits: "trial_hits (- 1) 1 0 (cycle_rng [1 / 4, 3 / 4]) (nat 2) = [1, - 1]"
    unfolding trial_hits_def n up cycle_rng_def
    by (simp add: trial_def one_trial_up hit_location_of_def)
  have np: "\<not> promoted_to_float64 [1, - 1]"
    by (simp add: promoted_to_float64_def fits_uint64_def)
  have run: "fst (hitting_time (- 1) 1 2 0 (cycle_rng [1 / 4, 3 / 4]))
       = ([1, 1], (Some (1 / 2), Some (1 / 2)))"
    unfolding hitting_time_def n cycle_rng_def
    by (simp add: one_trial_up np_mean_bool_def hit_time_of_def hit_location_of_def
        np_array_eq_exact [OF np] np_array_def promoted_to_float64_def fits_uint64_def
        float64_round_half)
  have add: "float64_add (1 / 2) (1 / 2) \<le> 1"
    by (simp add: float64_add_def float64_round_one)
  show ?thesis
    using hits np run add hitting_time_statistics [of 2 "- 1" 1 0 "cycle_rng [1 / 4, 3 / 4]"]
    by simp
qed

text \<open>
  As stated the claim fails twice. With \<open>left = right = 1\<close> a trial absorbed at 1 counts
  toward both fractions, and one such trial gives \<open>(1.0, 1.0)\<close>. With \<open>left = 2^63 - 2\<close>,
  \<open>right = 2^63\<close> and \<open>start = 2^63 - 1\<close>, one trial absorbed at each boundary gives the
  hit locations \<open>2^63 - 2\<close> and \<open>2^63\<close>, stored and compared as the double \<open>2^63\<close>: both
  trials count toward both fractions, and the result is \<open>(1.0, 1.0)\<close> again, whose sum
  is 2.
\<close>

theorem hitting_time_statistics_counterexample:
  "snd (fst (hitting_time 1 1 1 0 (cycle_rng [1 / 4]))) = (Some 1, Some 1)
   \<and> (9223372036854775806 :: int) \<noteq> 9223372036854775808
   \<and> snd (fst (hitting_time 9223372036854775806 9223372036854775808 2 9223372036854775807
                  (cycle_rng [3 / 4, 1 / 4])))
       = (Some 1, Some 1)
   \<and> \<not> float64_add 1 1 \<le> 1"
proof -
  have n1: "nat 1 = Suc 0" and n2: "nat 2 = Suc (Suc 0)" by simp_all
  have t1: "random_walk_absorbing 1 1 0 (1 / 2) 10000 (cycle_rng [1 / 4])
      = (([0, 1], 1, 1), Rng (tape (cycle_rng [1 / 4])) 1)"
    by (simp add: random_walk_absorbing_def absorbing_loop.simps rand_scalar_def cycle_rng_def
        np_array_def promoted_to_float64_def fits_uint64_def)
  have np1: "\<not> promoted_to_float64 [1]"
    by (simp add: promoted_to_float64_def fits_uint64_def)
  have a: "snd (fst (hitting_time 1 1 1 0 (cycle_rng [1 / 4]))) = (Some 1, Some 1)"
    unfolding hitting_time_def n1
    by (simp add: t1 np_mean_bool_def hit_time_of_def hit_location_of_def
        np_array_eq_exact [OF np1] float64_round_one)
  let ?g = "cycle_rng [3 / 4, 1 / 4]"
  have s1: "random_walk_absorbing 9223372036854775806 9223372036854775808 9223372036854775807
        (1 / 2) 10000 ?g
      = ((np_array [9223372036854775807, 9223372036854775806], 1, 9223372036854775806),
         Rng (tape ?g) (Suc 0))"
    by (simp add: random_walk_absorbing_def absorbing_loop.simps rand_scalar_def cycle_rng_def)
  have s2: "random_walk_absorbing 9223372036854775806 9223372036854775808 9223372036854775807
        (1 / 2) 10000 (Rng (tape ?g) (Suc 0))
      = ((np_array [9223372036854775807, 9223372036854775808], 1, 9223372036854775808),
         Rng (tape ?g) 2)"
    by (simp add: random_walk_absorbing_def absorbing_loop.simps rand_scalar_def cycle_rng_def)
  have loop: "hitting_loop 9223372036854775806 9223372036854775808 9223372036854775807
        (Suc (Suc 0)) [] [] ?g
      = (([1, 1], [9223372036854775806, 9223372036854775808]), Rng (tape ?g) 2)"
    by (simp add: s1 s2 Let_def hit_time_of_def hit_location_of_def)
  have pr: "promoted_to_float64 [9223372036854775806, 9223372036854775808]"
    by (simp add: promoted_to_float64_def fits_int64_def fits_uint64_def)
  have b: "snd (fst (hitting_time 9223372036854775806 9223372036854775808 2 9223372036854775807
                  (cycle_rng [3 / 4, 1 / 4])))
       = (Some 1, Some 1)"
    unfolding hitting_time_def n2 loop
    by (simp add: Let_def np_mean_bool_def np_array_eq_def pr
        float64_of_int_2_63_minus_2 float64_of_int_2_63 float64_round_one)
  have c: "\<not> float64_add 1 1 \<le> 1"
    by (simp add: float64_add_def float64_round_two)
  from a b c show ?thesis by simp
qed

section \<open>The plain one-dimensional walk: its shape\<close>

lemma length_rand_draws: "length (fst (rand_draws k g)) = k"
  by (induction k arbitrary: g) simp_all

lemma length_cumsum_from: "length (cumsum_from acc xs) = length xs"
  by (induction xs arbitrary: acc) simp_all

text \<open>Successive running sums differ by the summand.\<close>

lemma cumsum_from_diff:
  "i < length xs \<Longrightarrow>
   (acc # cumsum_from acc xs) ! Suc i - (acc # cumsum_from acc xs) ! i = xs ! i"
proof (induction xs arbitrary: acc i)
  case Nil
  then show ?case by simp
next
  case (Cons x xs)
  show ?case
  proof (cases i)
    case 0
    then show ?thesis by simp
  next
    case (Suc j)
    then have "j < length xs" using Cons.prems by simp
    from Cons.IH [OF this, of "acc + x"] show ?thesis
      using Suc by simp
  qed
qed

text \<open>
  Claim C7, amended. For \<open>n_steps = 0\<close>, \<open>random_walk_1d\<close> returns an empty sequence (and
  draws nothing). For \<open>n_steps < 0\<close> it does not return: \<^verbatim>\<open>np.random.rand\<close> raises
  \<open>ValueError\<close> on the negative dimension.
\<close>

theorem random_walk_1d_no_steps:
  "(n_steps = 0 \<longrightarrow> random_walk_1d n_steps p g = Inr ([], g))
   \<and> (n_steps < 0 \<longrightarrow> random_walk_1d n_steps p g = Inl ValueError)"
  by (simp add: random_walk_1d_def np_random_rand_def np_cumsum_def)

theorem random_walk_1d_no_steps_witness:
  "random_walk_1d 0 (1 / 2) (cycle_rng [1 / 4]) = Inr ([], cycle_rng [1 / 4])
   \<and> (- 3 :: int) < 0
   \<and> random_walk_1d (- 3) (1 / 2) (cycle_rng [1 / 4]) = Inl ValueError"
  using random_walk_1d_no_steps [of 0 "1 / 2" "cycle_rng [1 / 4]"]
    random_walk_1d_no_steps [of "- 3" "1 / 2" "cycle_rng [1 / 4]"]
  by simp

text \<open>
  As stated for every \<open>n_steps \<le> 0\<close> the claim fails at \<open>n_steps = -1\<close>, where the call
  raises.
\<close>

theorem random_walk_1d_negative_counterexample:
  "random_walk_1d (- 1) (1 / 2) (cycle_rng [1 / 4]) = Inl ValueError"
  by (simp add: random_walk_1d_def np_random_rand_def)

text \<open>
  Claim C8. For every \<open>n_steps \<ge> 1\<close> and every \<open>p\<close>, \<open>random_walk_1d\<close> returns exactly
  \<open>n_steps\<close> cumulative positions; the first is \<open>+1\<close> or \<open>-1\<close> (the starting position 0 is
  not part of the sequence) and every successive difference is exactly \<open>+1\<close> or \<open>-1\<close>.
\<close>

theorem random_walk_1d_walk:
  assumes "1 \<le> n_steps"
  shows "\<exists>xs g'. random_walk_1d n_steps p g = Inr (xs, g')
      \<and> length xs = nat n_steps
      \<and> (hd xs = 1 \<or> hd xs = - 1)
      \<and> (\<forall>i. 0 < i \<and> i < length xs \<longrightarrow> xs ! i - xs ! (i - 1) = 1 \<or> xs ! i - xs ! (i - 1) = - 1)"
proof -
  define us where "us = fst (rand_draws (nat n_steps) g)"
  define steps :: "int list" where "steps = map (\<lambda>u. if u < p then 1 else - 1) us"
  define xs where "xs = np_cumsum steps"
  have run: "random_walk_1d n_steps p g = Inr (xs, snd (rand_draws (nat n_steps) g))"
    using assms
    by (simp add: random_walk_1d_def np_random_rand_def xs_def steps_def us_def split: prod.splits)
  have len_steps: "length steps = nat n_steps"
    by (simp add: steps_def us_def length_rand_draws)
  have len: "length xs = nat n_steps"
    by (simp add: xs_def np_cumsum_def length_cumsum_from len_steps)
  have unit: "steps ! i = 1 \<or> steps ! i = - 1" if "i < length steps" for i
    using that by (simp add: steps_def)
  have diff: "(0 # xs) ! Suc i - (0 # xs) ! i = steps ! i" if "i < length steps" for i
    using cumsum_from_diff [OF that, of 0] by (simp add: xs_def np_cumsum_def)
  have pos: "0 < length steps"
    using assms len_steps by simp
  have "xs \<noteq> []"
    using len assms by auto
  then have "hd xs = xs ! 0"
    by (simp add: hd_conv_nth)
  moreover have "xs ! 0 = steps ! 0"
    using diff [OF pos] by simp
  ultimately have first: "hd xs = 1 \<or> hd xs = - 1"
    using unit [OF pos] by simp
  have later: "\<forall>i. 0 < i \<and> i < length xs \<longrightarrow> xs ! i - xs ! (i - 1) = 1 \<or> xs ! i - xs ! (i - 1) = - 1"
  proof (intro allI impI)
    fix i assume i: "0 < i \<and> i < length xs"
    then obtain j where j: "i = Suc j" by (cases i) auto
    have "i < length steps" using i len len_steps by simp
    from diff [OF this] unit [OF this]
    show "xs ! i - xs ! (i - 1) = 1 \<or> xs ! i - xs ! (i - 1) = - 1"
      using j by simp
  qed
  from run len first later show ?thesis by blast
qed

theorem random_walk_1d_walk_witness:
  "(1 :: int) \<le> 3
   \<and> random_walk_1d 3 (1 / 2) (cycle_rng [1 / 4, 3 / 4, 3 / 4])
       = Inr ([1, 0, - 1], Rng (tape (cycle_rng [1 / 4, 3 / 4, 3 / 4])) 3)
   \<and> (\<exists>xs g'. random_walk_1d 3 (1 / 2) (cycle_rng [1 / 4, 3 / 4, 3 / 4]) = Inr (xs, g')
        \<and> length xs = nat 3)"
proof -
  have n: "nat 3 = Suc (Suc (Suc 0))"
    by simp
  have run: "random_walk_1d 3 (1 / 2) (cycle_rng [1 / 4, 3 / 4, 3 / 4])
       = Inr ([1, 0, - 1], Rng (tape (cycle_rng [1 / 4, 3 / 4, 3 / 4])) 3)"
    unfolding random_walk_1d_def np_random_rand_def n
    by (simp add: np_cumsum_def rand_scalar_def cycle_rng_def)
  show ?thesis
    using run random_walk_1d_walk [of 3 "1 / 2" "cycle_rng [1 / 4, 3 / 4, 3 / 4]"]
    by simp
qed

section \<open>Mean squared displacement of a batch\<close>

text \<open>
  A 64-bit square is the mathematical square as long as that fits: for positions up to
  3037000499 in absolute value.
\<close>

lemma sint_square_in_range:
  fixes x :: "64 word"
  assumes "\<bar>sint x\<bar> \<le> 3037000499"
  shows "sint (x * x) = sint x * sint x"
proof -
  have "sint x * sint x = \<bar>sint x\<bar> * \<bar>sint x\<bar>"
    by simp
  also have "\<dots> \<le> 3037000499 * 3037000499"
    using assms by (intro mult_mono) simp_all
  finally have up: "sint x * sint x < 2 ^ 63"
    by simp
  have low: "- (2 ^ 63) \<le> sint x * sint x"
    by (rule order_trans [of _ 0]) simp_all
  have "sint (x * x) = signed_take_bit 63 (sint x * sint x)"
    by (simp add: sint_word_ariths)
  also have "\<dots> = sint x * sint x"
    using low up by (rule signed_take_bit_int_eq_self)
  finally show ?thesis .
qed

lemma sint_square_small:
  fixes x :: "64 word"
  assumes "(sint x)\<^sup>2 \<le> 2 ^ 53"
  shows "sint (x * x) = (sint x)\<^sup>2"
proof -
  have "\<bar>sint x\<bar> \<le> 3037000499"
  proof (rule ccontr)
    assume "\<not> \<bar>sint x\<bar> \<le> 3037000499"
    then have big: "3037000500 \<le> \<bar>sint x\<bar>" by simp
    have "3037000500 * 3037000500 \<le> \<bar>sint x\<bar> * \<bar>sint x\<bar>"
      using big by (intro mult_mono) simp_all
    also have "\<dots> = (sint x)\<^sup>2"
      by (simp add: power2_eq_square)
    finally show False using assms by simp
  qed
  then show ?thesis
    by (simp add: sint_square_in_range power2_eq_square)
qed

text \<open>Nonnegative integers whose sum is at most \<open>2^53\<close> are added up exactly.\<close>

lemma float64_sum_from:
  "0 \<le> acc \<Longrightarrow> \<forall>x\<in>set xs. 0 \<le> x \<Longrightarrow> acc + sum_list xs \<le> 2 ^ 53 \<Longrightarrow>
   foldl (\<lambda>acc x. float64_of_int (acc + float64_of_int x)) acc xs = acc + sum_list xs"
proof (induction xs arbitrary: acc)
  case Nil
  then show ?case by simp
next
  case (Cons x xs)
  have rest: "0 \<le> sum_list xs"
    using Cons.prems(2) by (intro sum_list_nonneg) simp
  have x: "0 \<le> x" using Cons.prems(2) by simp
  have "x \<le> 2 ^ 53" "acc + x \<le> 2 ^ 53"
    using Cons.prems(1,3) rest x by simp_all
  then have fx: "float64_of_int x = x" and fs: "float64_of_int (acc + x) = acc + x"
    using x Cons.prems(1) by (simp_all add: float64_of_int_exact)
  have "foldl (\<lambda>acc x. float64_of_int (acc + float64_of_int x)) (acc + x) xs
      = (acc + x) + sum_list xs"
    using Cons.prems x by (intro Cons.IH) simp_all
  then show ?case by (simp add: fx fs)
qed

lemma float64_sum_exact:
  "\<forall>x\<in>set xs. 0 \<le> x \<Longrightarrow> sum_list xs \<le> 2 ^ 53 \<Longrightarrow> float64_sum xs = sum_list xs"
  using float64_sum_from [of 0 xs] by (simp add: float64_sum_def)

lemma member_le_sum_list_int:
  fixes xs :: "int list"
  shows "\<forall>x\<in>set xs. 0 \<le> x \<Longrightarrow> y \<in> set xs \<Longrightarrow> y \<le> sum_list xs"
proof (induction xs)
  case Nil
  then show ?case by simp
next
  case (Cons x xs)
  have rest: "0 \<le> sum_list xs"
    using Cons.prems(1) by (intro sum_list_nonneg) simp
  show ?case
  proof (cases "y = x")
    case True
    then show ?thesis using rest by simp
  next
    case False
    then have "y \<le> sum_list xs" using Cons by simp
    moreover have "0 \<le> x" using Cons.prems(1) by simp
    ultimately show ?thesis by simp
  qed
qed

text \<open>
  Where the squares of a column add up to at most \<open>2^53\<close>, no square wraps and every
  conversion and partial sum is exact: only the final division rounds.
\<close>

lemma mean_squared_displacement_exact_sums:
  assumes ne: "walks \<noteq> []" and rect: "\<forall>row\<in>set walks. length row = n"
    and small: "\<forall>t<n. sum_list (map (\<lambda>row. (sint (row ! t))\<^sup>2) walks) \<le> 2 ^ 53"
  shows "mean_squared_displacement walks =
     Some (map (\<lambda>t. float64_round
                       (real_of_int (sum_list (map (\<lambda>row. (sint (row ! t))\<^sup>2) walks))
                          / real (length walks)))
             [0..<n])"
proof -
  have "hd walks \<in> set walks"
    using ne by simp
  then have hd: "length (hd (np_square walks)) = n"
    using ne rect by (cases walks) (simp_all add: np_square_def)
  have col: "float64_sum (map (\<lambda>row. sint (row ! t)) (np_square walks))
      = sum_list (map (\<lambda>row. (sint (row ! t))\<^sup>2) walks)"
    if t: "t < n" for t
  proof -
    let ?sq = "map (\<lambda>row. (sint (row ! t))\<^sup>2) walks"
    have nonneg: "\<forall>x\<in>set ?sq. 0 \<le> x" by simp
    have bound: "sum_list ?sq \<le> 2 ^ 53" using small t by simp
    have each: "(sint (row ! t))\<^sup>2 \<le> 2 ^ 53" if "row \<in> set walks" for row
    proof -
      have "(sint (row ! t))\<^sup>2 \<in> set ?sq" using that by simp
      from member_le_sum_list_int [OF nonneg this] bound show ?thesis by simp
    qed
    have "map (\<lambda>row. sint (row ! t)) (np_square walks)
        = map (\<lambda>row. sint (row ! t * row ! t)) walks"
      using t rect by (simp add: np_square_def)
    also have "\<dots> = ?sq"
      using each by (simp add: sint_square_small)
    finally show ?thesis
      using float64_sum_exact [OF nonneg bound] by simp
  qed
  have len: "length (np_square walks) = length walks"
    by (simp add: np_square_def)
  have "np_square walks \<noteq> []"
    using ne by (simp add: np_square_def)
  then have "mean_squared_displacement walks =
      Some (map (\<lambda>t. float64_round
                        (real_of_int (float64_sum (map (\<lambda>row. sint (row ! t)) (np_square walks)))
                           / real (length walks))) [0..<n])"
    by (simp add: mean_squared_displacement_def np_mean_axis0_def hd len)
  also have "\<dots> = Some (map (\<lambda>t. float64_round
                       (real_of_int (sum_list (map (\<lambda>row. (sint (row ! t))\<^sup>2) walks))
                          / real (length walks))) [0..<n])"
    using col by auto
  finally show ?thesis .
qed

text \<open>
  Claim C9, amended. On a batch of \<open>k \<ge> 1\<close> identical copies of a walk \<open>W\<close> whose
  positions \<open>x\<close> satisfy \<open>k * x^2 \<le> 2^53\<close>, \<open>mean_squared_displacement\<close> returns \<open>W\<close>
  squared elementwise. In general, on a batch of \<open>n_trials \<ge> 1\<close> rows of \<open>n_steps\<close>
  positions in which the squared positions of every time step add up to at most \<open>2^53\<close>,
  the result has \<open>n_steps\<close> elements and element \<open>t\<close> is the double nearest to the
  arithmetic mean over the trials of the squared position at time \<open>t\<close>. For a single
  trial with \<open>x^2 \<le> 2^53\<close> throughout, the result is the squared walk.
\<close>

theorem mean_squared_displacement_spec:
  "(1 \<le> k \<and> (\<forall>x\<in>set W. int k * (sint x)\<^sup>2 \<le> 2 ^ 53) \<longrightarrow>
      mean_squared_displacement (replicate k W)
        = Some (map (\<lambda>x. (real_of_int (sint x))\<^sup>2) W))
   \<and> (walks \<noteq> [] \<and> (\<forall>row\<in>set walks. length row = n_steps)
        \<and> (\<forall>t<n_steps. sum_list (map (\<lambda>row. (sint (row ! t))\<^sup>2) walks) \<le> 2 ^ 53) \<longrightarrow>
        (\<exists>msd. mean_squared_displacement walks = Some msd
           \<and> length msd = n_steps
           \<and> (\<forall>t<n_steps. msd ! t
                 = float64_round
                     (real_of_int (sum_list (map (\<lambda>row. (sint (row ! t))\<^sup>2) walks))
                        / real (length walks)))))
   \<and> ((\<forall>x\<in>set W. (sint x)\<^sup>2 \<le> 2 ^ 53) \<longrightarrow>
        mean_squared_displacement [W] = Some (map (\<lambda>x. (real_of_int (sint x))\<^sup>2) W))"
proof -
  have copies: "mean_squared_displacement (replicate k W)
      = Some (map (\<lambda>x. (real_of_int (sint x))\<^sup>2) W)"
    if k: "1 \<le> k" and small: "\<forall>x\<in>set W. int k * (sint x)\<^sup>2 \<le> 2 ^ 53" for k W
  proof -
    have ne: "replicate k W \<noteq> []"
      using k by (cases k) simp_all
    have rect: "\<forall>row\<in>set (replicate k W). length row = length W"
      by simp
    have sums: "sum_list (map (\<lambda>row. (sint (row ! t))\<^sup>2) (replicate k W))
        = int k * (sint (W ! t))\<^sup>2" for t
      by (simp add: sum_list_replicate)
    have bound: "\<forall>t<length W. sum_list (map (\<lambda>row. (sint (row ! t))\<^sup>2) (replicate k W)) \<le> 2 ^ 53"
    proof (intro allI impI)
      fix t assume "t < length W"
      then have "W ! t \<in> set W" by simp
      with small show "sum_list (map (\<lambda>row. (sint (row ! t))\<^sup>2) (replicate k W)) \<le> 2 ^ 53"
        unfolding sums by blast
    qed
    have one: "float64_round (real_of_int (int k * (sint (W ! t))\<^sup>2) / real k)
        = (real_of_int (sint (W ! t)))\<^sup>2" if t: "t < length W" for t
    proof -
      have "0 \<le> (sint (W ! t))\<^sup>2" by simp
      moreover have "(sint (W ! t))\<^sup>2 \<le> int k * (sint (W ! t))\<^sup>2"
        using k by (simp add: mult_le_cancel_right1)
      moreover have "int k * (sint (W ! t))\<^sup>2 \<le> 2 ^ 53"
        using small t by simp
      ultimately have "\<bar>(sint (W ! t))\<^sup>2\<bar> \<le> 2 ^ 53" by linarith
      then have "float64_round (of_int ((sint (W ! t))\<^sup>2)) = of_int ((sint (W ! t))\<^sup>2)"
        by (rule float64_round_int_exact)
      moreover have "real_of_int (int k * (sint (W ! t))\<^sup>2) / real k
          = of_int ((sint (W ! t))\<^sup>2)"
        using k by simp
      ultimately show ?thesis by simp
    qed
    have "map (\<lambda>t. float64_round
                (real_of_int (sum_list (map (\<lambda>row. (sint (row ! t))\<^sup>2) (replicate k W)))
                   / real (length (replicate k W)))) [0..<length W]
        = map (\<lambda>t. (real_of_int (sint (W ! t)))\<^sup>2) [0..<length W]"
    proof (rule map_cong [OF refl])
      fix t assume "t \<in> set [0..<length W]"
      then have t: "t < length W" by simp
      show "float64_round
              (real_of_int (sum_list (map (\<lambda>row. (sint (row ! t))\<^sup>2) (replicate k W)))
                 / real (length (replicate k W)))
          = (real_of_int (sint (W ! t)))\<^sup>2"
        unfolding sums length_replicate using one [OF t] .
    qed
    also have "\<dots> = map (\<lambda>x. (real_of_int (sint x))\<^sup>2) W"
      by (rule nth_equalityI) simp_all
    finally show ?thesis
      using mean_squared_displacement_exact_sums [OF ne rect bound] by simp
  qed
  have general: "\<exists>msd. mean_squared_displacement walks = Some msd
           \<and> length msd = n_steps
           \<and> (\<forall>t<n_steps. msd ! t
                 = float64_round
                     (real_of_int (sum_list (map (\<lambda>row. (sint (row ! t))\<^sup>2) walks))
                        / real (length walks)))"
    if "walks \<noteq> [] \<and> (\<forall>row\<in>set walks. length row = n_steps)
        \<and> (\<forall>t<n_steps. sum_list (map (\<lambda>row. (sint (row ! t))\<^sup>2) walks) \<le> 2 ^ 53)"
    using mean_squared_displacement_exact_sums [of walks n_steps] that by simp
  have single: "mean_squared_displacement [W] = Some (map (\<lambda>x. (real_of_int (sint x))\<^sup>2) W)"
    if "\<forall>x\<in>set W. (sint x)\<^sup>2 \<le> 2 ^ 53"
    using copies [of 1 W] that by simp
  from copies general single show ?thesis by blast
qed

theorem mean_squared_displacement_spec_witness:
  "(1 :: nat) \<le> 2
   \<and> int 2 * (sint (1 :: 64 word))\<^sup>2 \<le> 2 ^ 53 \<and> int 2 * (sint (2 :: 64 word))\<^sup>2 \<le> 2 ^ 53
   \<and> mean_squared_displacement (replicate 2 [1, 2, 1 :: 64 word]) = Some [1, 4, 1]
   \<and> [[2], [4 :: 64 word]] \<noteq> []
   \<and> length [2 :: 64 word] = 1 \<and> length [4 :: 64 word] = 1
   \<and> sum_list (map (\<lambda>row. (sint (row ! 0))\<^sup>2) [[2], [4 :: 64 word]]) \<le> 2 ^ 53
   \<and> mean_squared_displacement [[2], [4 :: 64 word]] = Some [10]"
proof -
  have a: "mean_squared_displacement (replicate 2 [1, 2, 1 :: 64 word]) = Some [1, 4, 1]"
    using mean_squared_displacement_spec [of 2 "[1, 2, 1]" "[[2], [4]]" 1]
    by simp
  have ten: "float64_round 10 = 10"
    using float64_round_int_exact [of 10] by simp
  obtain msd where msd: "mean_squared_displacement [[2], [4 :: 64 word]] = Some msd"
    "length msd = 1"
    "msd ! 0 = float64_round
       (real_of_int (sum_list (map (\<lambda>row. (sint (row ! 0))\<^sup>2) [[2], [4 :: 64 word]]))
          / real (length [[2], [4 :: 64 word]]))"
    using mean_squared_displacement_spec [of 2 "[1, 2, 1]" "[[2], [4]]" 1]
    by auto
  have "msd ! 0 = 10"
    using msd(3) by (simp add: ten)
  then have "msd = [10]"
    using msd(2) by (cases msd) simp_all
  with a msd(1) show ?thesis by simp
qed

text \<open>
  Without the bounds the claim fails. Six copies of the one-step batch \<open>[94906266]\<close>: the
  square 9007199326062756 exceeds \<open>2^53\<close>, the running sum is rounded twice and the
  result is 9007199326062754. The batch \<open>[[3037000500]]\<close>: the square exceeds \<open>2^63\<close> and
  wraps to a negative number.
\<close>

lemma float64_of_int_v1: "float64_of_int 9007199326062756 = 9007199326062756"
proof -
  have bl: "bit_length 9007199326062756 = 54"
    by (simp add: bit_length.simps)
  show ?thesis
    by (simp add: float64_of_int_def float64_round_def float64_exponent_def bl scale2_def
        round_half_even_def Let_def)
qed

lemma float64_of_int_v2: "float64_of_int 18014398652125512 = 18014398652125512"
proof -
  have bl: "bit_length 18014398652125512 = 55"
    by (simp add: bit_length.simps)
  show ?thesis
    by (simp add: float64_of_int_def float64_round_def float64_exponent_def bl scale2_def
        round_half_even_def Let_def)
qed

lemma float64_of_int_v3: "float64_of_int 27021597978188268 = 27021597978188268"
proof -
  have bl: "bit_length 27021597978188268 = 55"
    by (simp add: bit_length.simps)
  show ?thesis
    by (simp add: float64_of_int_def float64_round_def float64_exponent_def bl scale2_def
        round_half_even_def Let_def)
qed

lemma float64_of_int_v4: "float64_of_int 36028797304251024 = 36028797304251024"
proof -
  have bl: "bit_length 36028797304251024 = 56"
    by (simp add: bit_length.simps)
  show ?thesis
    by (simp add: float64_of_int_def float64_round_def float64_exponent_def bl scale2_def
        round_half_even_def Let_def)
qed

lemma float64_of_int_v5: "float64_of_int 45035996630313780 = 45035996630313776"
proof -
  have bl: "bit_length 45035996630313780 = 56"
    by (simp add: bit_length.simps)
  show ?thesis
    by (simp add: float64_of_int_def float64_round_def float64_exponent_def bl scale2_def
        round_half_even_def Let_def)
qed

lemma float64_of_int_v6: "float64_of_int 54043195956376532 = 54043195956376528"
proof -
  have bl: "bit_length 54043195956376532 = 56"
    by (simp add: bit_length.simps)
  show ?thesis
    by (simp add: float64_of_int_def float64_round_def float64_exponent_def bl scale2_def
        round_half_even_def Let_def)
qed

lemma float64_round_v6: "float64_round (27021597978188264 / 3) = 9007199326062754"
proof -
  have bl: "bit_length 9007199326062754 = 54"
    by (simp add: bit_length.simps)
  show ?thesis
    by (simp add: float64_round_def float64_exponent_def bl scale2_def round_half_even_def
        Let_def)
qed

lemma float64_of_int_wrapped: "float64_of_int (- 9223372036709301616) = - 9223372036709301248"
proof -
  have bl: "bit_length 9223372036709301616 = 63"
    by (simp add: bit_length.simps)
  show ?thesis
    by (simp add: float64_of_int_def float64_round_def float64_exponent_def bl scale2_def
        round_half_even_def Let_def)
qed

lemma float64_of_int_wrapped_again: "float64_of_int (- 9223372036709301248) = - 9223372036709301248"
proof -
  have bl: "bit_length 9223372036709301248 = 63"
    by (simp add: bit_length.simps)
  show ?thesis
    by (simp add: float64_of_int_def float64_round_def float64_exponent_def bl scale2_def
        round_half_even_def Let_def)
qed

lemma float64_round_wrapped:
  "float64_round (- 9223372036709301248) = - 9223372036709301248"
proof -
  have bl: "bit_length 9223372036709301248 = 63"
    by (simp add: bit_length.simps)
  show ?thesis
    by (simp add: float64_round_def float64_exponent_def bl scale2_def round_half_even_def
        Let_def)
qed

theorem mean_squared_displacement_spec_counterexample:
  "mean_squared_displacement (replicate 6 [94906266]) = Some [9007199326062754]
   \<and> (94906266 :: real)\<^sup>2 = 9007199326062756
   \<and> mean_squared_displacement [[3037000500]] = Some [- 9223372036709301248]
   \<and> (3037000500 :: real)\<^sup>2 = 9223372037000250000"
proof -
  have six: "replicate 6 [94906266 :: 64 word]
      = [[94906266], [94906266], [94906266], [94906266], [94906266], [94906266]]"
    by (simp add: numeral_eq_Suc)
  have sq: "sint ((94906266 :: 64 word) * 94906266) = 9007199326062756"
    by simp
  have a: "mean_squared_displacement (replicate 6 [94906266]) = Some [9007199326062754]"
    unfolding six
    by (simp add: mean_squared_displacement_def np_mean_axis0_def np_square_def float64_sum_def
        sq float64_of_int_v1 float64_of_int_v2 float64_of_int_v3 float64_of_int_v4
        float64_of_int_v5 float64_of_int_v6 float64_round_v6)
  have wr: "sint ((3037000500 :: 64 word) * 3037000500) = - 9223372036709301616"
    by simp
  have b: "mean_squared_displacement [[3037000500]] = Some [- 9223372036709301248]"
    by (simp add: mean_squared_displacement_def np_mean_axis0_def np_square_def float64_sum_def
        wr float64_of_int_wrapped float64_of_int_wrapped_again float64_round_wrapped)
  from a b show ?thesis by simp
qed

end
